theory Spec2Isabelle
  imports Main
begin

section \<open>Strings of the host language\<close>

text \<open>
  The program is a TypeScript module (\<^verbatim>\<open>src/index.ts\<close>). Its strings are sequences of
  UTF-16 code units. A code unit is modelled as a natural number (a value below 65536); no
  arithmetic of the program can leave that range, so no wrap-around is involved. String
  literals of the source are written with \<open>js\<close>.
\<close>

type_synonym code_unit = nat
type_synonym jsstring = "code_unit list"

definition js :: "string \<Rightarrow> jsstring" where
  "js s = map of_char s"

text \<open>Truthiness of a possibly missing string: \<^verbatim>\<open>null\<close>, \<^verbatim>\<open>undefined\<close> and
  the empty string are falsy.\<close>

definition truthy :: "jsstring option \<Rightarrow> bool" where
  "truthy v = (case v of None \<Rightarrow> False | Some s \<Rightarrow> s \<noteq> [])"

subsection \<open>Character classes\<close>

definition is_digit :: "code_unit \<Rightarrow> bool" where
  "is_digit c = (0x30 \<le> c \<and> c \<le> 0x39)"

definition is_upper :: "code_unit \<Rightarrow> bool" where
  "is_upper c = (0x41 \<le> c \<and> c \<le> 0x5A)"

definition is_lower :: "code_unit \<Rightarrow> bool" where
  "is_lower c = (0x61 \<le> c \<and> c \<le> 0x7A)"

text \<open>\<^verbatim>\<open>\w\<close>: the word characters \<^verbatim>\<open>[A-Za-z0-9_]\<close>.\<close>

definition is_word :: "code_unit \<Rightarrow> bool" where
  "is_word c = (is_upper c \<or> is_lower c \<or> is_digit c \<or> c = 0x5F)"

text \<open>
  The flag \<^verbatim>\<open>i\<close> (without \<^verbatim>\<open>u\<close>): a code unit matches a class when its canonical
  form equals the canonical form of a member. Canonicalisation maps a code unit to its upper
  case, but never maps a code unit from 128 on to one below 128; so for a class of ASCII
  members exactly the members and their ASCII case variants match.
\<close>

definition icase :: "(code_unit \<Rightarrow> bool) \<Rightarrow> code_unit \<Rightarrow> bool" where
  "icase p c = (p c \<or> (is_lower c \<and> p (c - 0x20)) \<or> (is_upper c \<and> p (c + 0x20)))"

text \<open>White space and line terminators, as \<^verbatim>\<open>String.prototype.trim\<close> and
  \<^verbatim>\<open>parseInt\<close> strip them.\<close>

definition is_space :: "code_unit \<Rightarrow> bool" where
  "is_space c = (c \<in> set [0x09, 0x0A, 0x0B, 0x0C, 0x0D, 0x20, 0xA0, 0x1680, 0x2028, 0x2029,
       0x202F, 0x205F, 0x3000, 0xFEFF] \<or> (0x2000 \<le> c \<and> c \<le> 0x200A))"

subsection \<open>String methods\<close>

definition slice :: "jsstring \<Rightarrow> nat \<Rightarrow> nat \<Rightarrow> jsstring" where
  "slice s i e = take (e - i) (drop i s)"

definition startsWith :: "jsstring \<Rightarrow> jsstring \<Rightarrow> bool" where
  "startsWith s p = (take (length p) s = p)"

definition trim :: "jsstring \<Rightarrow> jsstring" where
  "trim s = rev (dropWhile is_space (rev (dropWhile is_space s)))"

definition ascii_lower :: "code_unit \<Rightarrow> code_unit" where
  "ascii_lower c = (if is_upper c then c + 0x20 else c)"

text \<open>
  \<^verbatim>\<open>String.prototype.toLowerCase\<close>. On a string of ASCII code units it lowers the letters
  A to Z and changes nothing else. On other strings it follows the Unicode case tables,
  which are not part of the repository: they are the parameter \<open>U\<close> of every function
  that lowers a string, and every result below holds for any \<open>U\<close>.
\<close>

definition toLowerCase :: "(jsstring \<Rightarrow> jsstring) \<Rightarrow> jsstring \<Rightarrow> jsstring" where
  "toLowerCase U s = (if list_all (\<lambda>c. c < 0x80) s then map ascii_lower s else U s)"

text \<open>\<^verbatim>\<open>String.prototype.split\<close> with a one-unit separator.\<close>

fun split_acc :: "code_unit \<Rightarrow> jsstring \<Rightarrow> jsstring \<Rightarrow> jsstring list" where
  "split_acc sep cur [] = [rev cur]"
| "split_acc sep cur (c # cs) =
     (if c = sep then rev cur # split_acc sep [] cs else split_acc sep (c # cur) cs)"

definition split :: "jsstring \<Rightarrow> code_unit \<Rightarrow> jsstring list" where
  "split s sep = split_acc sep [] s"

section \<open>Regular expressions\<close>

text \<open>
  The three regular expressions of the source are sequences of atoms: one code unit of a
  class, a greedy repetition of a class (\<^verbatim>\<open>+\<close>, \<^verbatim>\<open>{m,}\<close>, \<^verbatim>\<open>{m,n}\<close>), the
  assertion \<^verbatim>\<open>\b\<close> and the assertion \<^verbatim>\<open>^\<close>. The matcher is the backtracking
  matcher of the language: at an index of the input it returns the end index of the first
  match in priority order, a greedy repetition trying the largest count first.
\<close>

datatype atom =
    Chr "code_unit \<Rightarrow> bool"
  | Rep "code_unit \<Rightarrow> bool" nat "nat option"
  | WordB
  | Bol

definition is_word_at :: "jsstring \<Rightarrow> nat \<Rightarrow> bool" where
  "is_word_at s i = (i < length s \<and> is_word (s ! i))"

definition word_boundary :: "jsstring \<Rightarrow> nat \<Rightarrow> bool" where
  "word_boundary s i = ((0 < i \<and> is_word_at s (i - 1)) \<noteq> is_word_at s i)"

definition cap :: "nat option \<Rightarrow> nat \<Rightarrow> nat" where
  "cap hi n = (case hi of None \<Rightarrow> n | Some h \<Rightarrow> min h n)"

text \<open>\<open>try_down f lo k\<close>: the first success of \<open>f\<close> at the counts \<open>k\<close>, \<open>k - 1\<close>, ...,
  \<open>lo\<close>.\<close>

fun try_down :: "(nat \<Rightarrow> nat option) \<Rightarrow> nat \<Rightarrow> nat \<Rightarrow> nat option" where
  "try_down f lo 0 = (if lo = 0 then f 0 else None)"
| "try_down f lo (Suc k) =
     (if Suc k < lo then None
      else case f (Suc k) of Some e \<Rightarrow> Some e | None \<Rightarrow> try_down f lo k)"

primrec rmatch :: "atom list \<Rightarrow> jsstring \<Rightarrow> nat \<Rightarrow> nat option" where
  "rmatch [] s i = Some i"
| "rmatch (a # r) s i =
     (case a of
        Chr c \<Rightarrow> (if i < length s \<and> c (s ! i) then rmatch r s (Suc i) else None)
      | Rep c lo hi \<Rightarrow>
          try_down (\<lambda>k. rmatch r s (i + k)) lo (cap hi (length (takeWhile c (drop i s))))
      | WordB \<Rightarrow> (if word_boundary s i then rmatch r s i else None)
      | Bol \<Rightarrow> (if i = 0 then rmatch r s i else None))"

text \<open>\<^verbatim>\<open>RegExp.prototype.exec\<close> of a regular expression without the flags \<^verbatim>\<open>g\<close> and
  \<^verbatim>\<open>y\<close>: the start indices 0, 1, ..., length are tried in this order. The result is the
  start and the end index of the match.\<close>

fun exec_from :: "atom list \<Rightarrow> jsstring \<Rightarrow> nat \<Rightarrow> nat \<Rightarrow> (nat \<times> nat) option" where
  "exec_from r s i 0 = None"
| "exec_from r s i (Suc n) =
     (case rmatch r s i of
        Some e \<Rightarrow> Some (i, e)
      | None \<Rightarrow> exec_from r s (Suc i) n)"

definition regexp_exec :: "atom list \<Rightarrow> jsstring \<Rightarrow> (nat \<times> nat) option" where
  "regexp_exec r s = exec_from r s 0 (Suc (length s))"

text \<open>\<^verbatim>\<open>String.prototype.match\<close> with such a regular expression: element 0 of the
  result, the matched substring.\<close>

definition string_match :: "jsstring \<Rightarrow> atom list \<Rightarrow> jsstring option" where
  "string_match s r = map_option (\<lambda>(i, e). slice s i e) (regexp_exec r s)"

text \<open>\<^verbatim>\<open>String.prototype.replace\<close> with such a regular expression: the first match is
  replaced.\<close>

definition replace :: "jsstring \<Rightarrow> atom list \<Rightarrow> jsstring \<Rightarrow> jsstring" where
  "replace s r new =
     (case regexp_exec r s of None \<Rightarrow> s | Some (i, e) \<Rightarrow> take i s @ new @ drop e s)"

text \<open>
  What it means for the input to match a regular expression between two indices, without
  regard to priority: the declarative reading of the pattern, against which the matcher
  is compared.
\<close>

definition within :: "nat option \<Rightarrow> nat \<Rightarrow> bool" where
  "within hi k = (case hi of None \<Rightarrow> True | Some h \<Rightarrow> k \<le> h)"

primrec matches :: "atom list \<Rightarrow> jsstring \<Rightarrow> nat \<Rightarrow> nat \<Rightarrow> bool" where
  "matches [] s i e = (i = e)"
| "matches (a # r) s i e =
     (case a of
        Chr c \<Rightarrow> i < length s \<and> c (s ! i) \<and> matches r s (Suc i) e
      | Rep c lo hi \<Rightarrow>
          (\<exists>k \<le> length s - i. lo \<le> k \<and> within hi k \<and> (\<forall>j < k. c (s ! (i + j)))
             \<and> matches r s (i + k) e)
      | WordB \<Rightarrow> word_boundary s i \<and> matches r s i e
      | Bol \<Rightarrow> i = 0 \<and> matches r s i e)"

section \<open>Numbers\<close>

text \<open>
  The numbers that occur are \<^verbatim>\<open>NaN\<close>, the infinities and doubles with an integer
  value. A non-negative integer becomes a double by rounding to 53 significant bits, ties
  to even; from \<open>2 ^ 1024\<close> on the result is infinite. (\<open>round_to_double\<close> is
  applied to non-negative integers only.)
\<close>

datatype jsnumber = NaN | Num int | PosInfinity | NegInfinity

function bitlen :: "int \<Rightarrow> nat" where
  "bitlen n = (if n \<le> 0 then 0 else Suc (bitlen (n div 2)))"
  by pat_completeness auto
termination
  by (relation "measure nat") auto

declare bitlen.simps [simp del]

definition round_to_double :: "int \<Rightarrow> int option" where
  "round_to_double n =
     (if n \<le> 2 ^ 53 then Some n
      else let e = bitlen n - 53;
               q = n div 2 ^ e;
               r = n mod 2 ^ e;
               h = 2 ^ (e - 1);
               q' = (if h < r \<or> (r = h \<and> odd q) then q + 1 else q);
               v = q' * 2 ^ e
           in if 2 ^ 1024 \<le> v then None else Some v)"

definition digits_value :: "jsstring \<Rightarrow> int" where
  "digits_value ds = foldl (\<lambda>a d. 10 * a + int (d - 0x30)) 0 ds"

text \<open>
  \<^verbatim>\<open>Number.parseInt(string, 10)\<close>: leading white space is stripped, one sign is read,
  then the longest run of decimal digits; what follows the run is ignored. Without a digit
  the result is \<^verbatim>\<open>NaN\<close>. (The language lets an implementation replace the digits after
  the 20th by zeros; the model keeps them, and no result below depends on a value beyond
  \<open>2 ^ 53\<close>.)
\<close>

definition parseInt :: "jsstring \<Rightarrow> jsnumber" where
  "parseInt string =
     (let S = dropWhile is_space string;
          negative = (S \<noteq> [] \<and> hd S = 0x2D);
          S' = (if S \<noteq> [] \<and> (hd S = 0x2B \<or> hd S = 0x2D) then tl S else S);
          Z = takeWhile is_digit S'
      in if Z = [] then NaN
         else case round_to_double (digits_value Z) of
                None \<Rightarrow> (if negative then NegInfinity else PosInfinity)
              | Some v \<Rightarrow> Num (if negative then - v else v))"

definition isFinite :: "jsnumber \<Rightarrow> bool" where
  "isFinite x = (case x of Num _ \<Rightarrow> True | _ \<Rightarrow> False)"

section \<open>URI decoding\<close>

datatype error = URIError | ReadError

definition hexval :: "code_unit \<Rightarrow> nat option" where
  "hexval c =
     (if is_digit c then Some (c - 0x30)
      else if 0x41 \<le> c \<and> c \<le> 0x46 then Some (c - 0x41 + 10)
      else if 0x61 \<le> c \<and> c \<le> 0x66 then Some (c - 0x61 + 10)
      else None)"

text \<open>An escape \<^verbatim>\<open>%XX\<close> at the head of a string: its byte and the rest.\<close>

fun escape :: "jsstring \<Rightarrow> (nat \<times> jsstring) option" where
  "escape (p # h1 # h2 # rest) =
     (if p = 0x25 then
        (case (hexval h1, hexval h2) of
           (Some a, Some b) \<Rightarrow> Some (16 * a + b, rest)
         | _ \<Rightarrow> None)
      else None)"
| "escape _ = None"

text \<open>\<open>n\<close> further escapes, the continuation octets of a UTF-8 sequence.\<close>

fun escapes :: "nat \<Rightarrow> jsstring \<Rightarrow> (nat list \<times> jsstring) option" where
  "escapes 0 s = Some ([], s)"
| "escapes (Suc n) s =
     (case escape s of
        None \<Rightarrow> None
      | Some (b, rest) \<Rightarrow>
          (case escapes n rest of None \<Rightarrow> None | Some (bs, rest') \<Rightarrow> Some (b # bs, rest')))"

text \<open>The number of leading 1 bits of an octet.\<close>

definition leading_ones :: "nat \<Rightarrow> nat" where
  "leading_ones b =
     (if b < 0x80 then 0 else if b < 0xC0 then 1 else if b < 0xE0 then 2
      else if b < 0xF0 then 3 else if b < 0xF8 then 4 else 5)"

text \<open>The code point of a well-formed UTF-8 sequence of 2 to 4 octets: no continuation
  octet outside \<open>0x80..0xBF\<close>, no overlong form, no surrogate, nothing beyond
  \<open>0x10FFFF\<close>.\<close>

definition utf8_code_point :: "nat \<Rightarrow> nat list \<Rightarrow> nat option" where
  "utf8_code_point b cs =
     (let n = Suc (length cs);
          v = foldl (\<lambda>a c. 64 * a + (c - 0x80)) (b mod 2 ^ (7 - n)) cs;
          lowest = (if n = 2 then 0x80 else if n = 3 then 0x800 else 0x10000)
      in if list_all (\<lambda>c. 0x80 \<le> c \<and> c < 0xC0) cs \<and> lowest \<le> v \<and> v \<le> 0x10FFFF
            \<and> \<not> (0xD800 \<le> v \<and> v \<le> 0xDFFF)
         then Some v else None)"

definition utf16_encode :: "nat \<Rightarrow> jsstring" where
  "utf16_encode v =
     (if v < 0x10000 then [v]
      else [0xD800 + (v - 0x10000) div 0x400, 0xDC00 + (v - 0x10000) mod 0x400])"

text \<open>
  \<^verbatim>\<open>decodeURIComponent\<close>: every escape is decoded, an escape of an octet from 128 on
  starts a UTF-8 sequence whose continuation octets must be escapes too; anything
  malformed throws \<^verbatim>\<open>URIError\<close>.
\<close>

lemma escape_length: "escape s = Some (b, rest) \<Longrightarrow> length rest < length s"
  by (induction s rule: escape.induct) (auto split: if_splits option.splits)

lemma escapes_length: "escapes n s = Some (bs, rest) \<Longrightarrow> length rest \<le> length s"
proof (induction n arbitrary: s bs rest)
  case 0
  then show ?case by simp
next
  case (Suc n)
  then show ?case
    by (fastforce split: option.splits prod.splits dest: escape_length)
qed

function (sequential) decodeURIComponent :: "jsstring \<Rightarrow> error + jsstring" where
  "decodeURIComponent [] = Inr []"
| "decodeURIComponent (c # cs) =
     (if c \<noteq> 0x25 then map_sum id ((#) c) (decodeURIComponent cs)
      else case escape (c # cs) of
          None \<Rightarrow> Inl URIError
        | Some (b, rest) \<Rightarrow>
            (if leading_ones b = 0 then map_sum id ((#) b) (decodeURIComponent rest)
             else if leading_ones b = 1 \<or> 4 < leading_ones b then Inl URIError
             else case escapes (leading_ones b - 1) rest of
                 None \<Rightarrow> Inl URIError
               | Some (bs, rest') \<Rightarrow>
                   (case utf8_code_point b bs of
                      None \<Rightarrow> Inl URIError
                    | Some v \<Rightarrow>
                        map_sum id ((@) (utf16_encode v)) (decodeURIComponent rest'))))"
  by pat_completeness auto
termination
proof (relation "measure length")
  show "wf (measure length)" by simp
next
  fix c :: code_unit and cs :: jsstring
  show "(cs, c # cs) \<in> measure length" by simp
next
  fix c :: code_unit and cs x2 :: "jsstring" and b :: nat and rest :: jsstring
    and x :: "nat \<times> jsstring"
  assume "escape (c # cs) = Some x" "(b, rest) = x"
  then have "length rest < length (c # cs)"
    using escape_length [of "c # cs" b rest] by simp
  then show "(rest, c # cs) \<in> measure length" by simp
next
  fix c :: code_unit and cs rest rest' :: jsstring and b v :: nat and bs :: "nat list"
    and x :: "nat \<times> jsstring" and y :: "nat list \<times> jsstring"
  assume "escape (c # cs) = Some x" "(b, rest) = x"
    "escapes (leading_ones b - 1) rest = Some y" "(bs, rest') = y"
  then have "length rest < length (c # cs)" "length rest' \<le> length rest"
    using escape_length [of "c # cs" b rest]
      escapes_length [of "leading_ones b - 1" rest bs rest'] by simp_all
  then show "(rest', c # cs) \<in> measure length" by simp
qed

section \<open>The extractor\<close>

text \<open>\<^verbatim>\<open>DEFAULT_TTL_SECONDS = 600\<close>.\<close>

definition DEFAULT_TTL_SECONDS :: int where
  "DEFAULT_TTL_SECONDS = 600"

text \<open>\<^verbatim>\<open>CODE_REGEX = /\b(\d{5,6})\b/\<close>. The group is the whole pattern between two
  assertions of width zero, so the text of group 1 is the text of the match.\<close>

definition CODE_REGEX :: "atom list" where
  "CODE_REGEX = [WordB, Rep is_digit 5 (Some 6), WordB]"

text \<open>The address pattern \<^verbatim>\<open>/[A-Z0-9._%+-]+@[A-Z0-9.-]+\.[A-Z]{2,}/i\<close>.\<close>

definition local_class :: "code_unit \<Rightarrow> bool" where
  "local_class c = (is_upper c \<or> is_digit c \<or> c \<in> set (js ''._%+-''))"

definition domain_class :: "code_unit \<Rightarrow> bool" where
  "domain_class c = (is_upper c \<or> is_digit c \<or> c \<in> set (js ''.-''))"

definition EMAIL_REGEX :: "atom list" where
  "EMAIL_REGEX =
     [Rep (icase local_class) 1 None,
      Chr (icase (\<lambda>c. c = 0x40)),
      Rep (icase domain_class) 1 None,
      Chr (icase (\<lambda>c. c = 0x2E)),
      Rep (icase is_upper) 2 None]"

definition extractEmailAddress ::
  "(jsstring \<Rightarrow> jsstring) \<Rightarrow> jsstring option \<Rightarrow> jsstring option" where
  "extractEmailAddress U v =
     (if \<not> truthy v then None
      else case string_match (the v) EMAIL_REGEX of
             Some m \<Rightarrow> Some (toLowerCase U m)
           | None \<Rightarrow> None)"

text \<open>The shape of an address in a string: from index \<open>i\<close> a local part of \<open>k1\<close> units, the
  at sign, a domain of \<open>k2\<close> units, a dot and \<open>k3\<close> letters.\<close>

definition address_shape :: "jsstring \<Rightarrow> nat \<Rightarrow> nat \<Rightarrow> nat \<Rightarrow> nat \<Rightarrow> bool" where
  "address_shape s i k1 k2 k3 =
     (1 \<le> k1 \<and> 1 \<le> k2 \<and> 2 \<le> k3 \<and> i + k1 + k2 + k3 + 2 \<le> length s \<and>
      (\<forall>j < k1. icase local_class (s ! (i + j))) \<and>
      s ! (i + k1) = 0x40 \<and>
      (\<forall>j < k2. icase domain_class (s ! (i + k1 + 1 + j))) \<and>
      s ! (i + k1 + 1 + k2) = 0x2E \<and>
      (\<forall>j < k3. icase is_upper (s ! (i + k1 + k2 + 2 + j))))"

text \<open>A normalised address: the whole string matches the pattern and has no upper-case
  letter.\<close>

definition normalized_address :: "jsstring \<Rightarrow> bool" where
  "normalized_address a \<longleftrightarrow> matches EMAIL_REGEX a 0 (length a) \<and> map ascii_lower a = a"

text \<open>The field \<^verbatim>\<open>to\<close> of an inbound message: missing, one string, or an array whose
  elements may be missing.\<close>

datatype to_field = ToUndefined | ToString jsstring | ToArray "jsstring option list"

text \<open>A body stream is modelled by what reading it to the end gives: the text, or a
  failure.\<close>

datatype stream = Stream "error + jsstring"

type_synonym headers = "jsstring \<rightharpoonup> jsstring"

record message =
  to :: to_field
  headers :: "headers option"
  raw :: "stream option"

text \<open>The loop of \<^verbatim>\<open>getRecipients\<close> over the entries, with the list built so far.\<close>

fun getRecipients_loop ::
  "(jsstring \<Rightarrow> jsstring) \<Rightarrow> jsstring option list \<Rightarrow> jsstring list \<Rightarrow> jsstring list" where
  "getRecipients_loop U [] recipients = recipients"
| "getRecipients_loop U (entry # list) recipients =
     (let email = extractEmailAddress U (Some (case entry of None \<Rightarrow> [] | Some e \<Rightarrow> e))
      in if truthy email then
           if \<not> (the email \<in> set recipients)
           then getRecipients_loop U list (recipients @ [the email])
           else getRecipients_loop U list recipients
         else getRecipients_loop U list recipients)"

definition getRecipients :: "(jsstring \<Rightarrow> jsstring) \<Rightarrow> message \<Rightarrow> jsstring list" where
  "getRecipients U m =
     (let list = (case to m of
                    ToArray es \<Rightarrow> es
                  | ToString s \<Rightarrow> [Some s]
                  | ToUndefined \<Rightarrow> [None])
      in getRecipients_loop U list [])"

text \<open>
  The recipients in the words of the specification: the entries of the field \<^verbatim>\<open>to\<close>,
  the address of each entry that has one, and of a list the elements that do not occur
  earlier in it.
\<close>

definition first_occurrences :: "'a list \<Rightarrow> 'a list" where
  "first_occurrences xs =
     map (\<lambda>i. xs ! i) (filter (\<lambda>i. xs ! i \<notin> set (take i xs)) [0..<length xs])"

definition to_entries :: "to_field \<Rightarrow> jsstring option list" where
  "to_entries t = (case t of ToArray es \<Rightarrow> es | ToString s \<Rightarrow> [Some s] | ToUndefined \<Rightarrow> [None])"

definition addresses :: "(jsstring \<Rightarrow> jsstring) \<Rightarrow> jsstring option list \<Rightarrow> jsstring list" where
  "addresses U es = List.map_filter (extractEmailAddress U) es"

definition extractCode :: "jsstring \<Rightarrow> jsstring option" where
  "extractCode text =
     (case regexp_exec CODE_REGEX text of
        Some (i, e) \<Rightarrow> Some (slice text i e)
      | None \<Rightarrow> None)"

text \<open>
  A code token of a text, in the words of the specification: 5 or 6 decimal digits from
  index \<open>i\<close>, with a word boundary before and after. A digit run is a maximal sequence of
  digits.
\<close>

definition code_token :: "jsstring \<Rightarrow> nat \<Rightarrow> nat \<Rightarrow> bool" where
  "code_token s i n \<longleftrightarrow>
     (n = 5 \<or> n = 6) \<and> i + n \<le> length s \<and> (\<forall>j < n. is_digit (s ! (i + j))) \<and>
     word_boundary s i \<and> word_boundary s (i + n)"

definition digit_run :: "jsstring \<Rightarrow> nat \<Rightarrow> nat \<Rightarrow> bool" where
  "digit_run s i n \<longleftrightarrow>
     0 < n \<and> i + n \<le> length s \<and> (\<forall>j < n. is_digit (s ! (i + j))) \<and>
     (i = 0 \<or> \<not> is_digit (s ! (i - 1))) \<and>
     (i + n = length s \<or> \<not> is_digit (s ! (i + n)))"

text \<open>\<^verbatim>\<open>new Response(stream).text()\<close>: the outcome of reading the stream.\<close>

definition Response_text :: "stream \<Rightarrow> error + jsstring" where
  "Response_text st = (case st of Stream r \<Rightarrow> r)"

text \<open>\<^verbatim>\<open>try { ... } catch { ... }\<close> around a computation that may throw.\<close>

definition try_catch :: "error + 'a \<Rightarrow> (error + 'a) \<Rightarrow> error + 'a" where
  "try_catch body handler = (case body of Inl _ \<Rightarrow> handler | Inr x \<Rightarrow> Inr x)"

definition readRawText :: "message \<Rightarrow> error + jsstring" where
  "readRawText m =
     (case raw m of
        None \<Rightarrow> Inr []
      | Some st \<Rightarrow> try_catch (Response_text st) (Inr []))"

section \<open>Configuration, store and the two handlers\<close>

text \<open>
  Modelled from the spec: the key-value store \<^verbatim>\<open>KVNamespace\<close> is an external
  collaborator with the contract \<^verbatim>\<open>put(key, value, ttlSeconds)\<close> and
  \<^verbatim>\<open>get(key) -> value | absent\<close>; a record expires \<open>ttlSeconds\<close> after it was
  written, and a write is visible to the reads that follow. The store maps a key to its
  value and the time its record expires; the clock is a parameter.
\<close>

type_synonym KVNamespace = "jsstring \<rightharpoonup> (jsstring \<times> int)"

record kv_write =
  key :: jsstring
  val :: jsstring
  expirationTtl :: int

definition kv_put :: "int \<Rightarrow> kv_write \<Rightarrow> KVNamespace \<Rightarrow> KVNamespace" where
  "kv_put now w kv = kv(key w \<mapsto> (val w, now + expirationTtl w))"

definition kv_get :: "int \<Rightarrow> KVNamespace \<Rightarrow> jsstring \<Rightarrow> jsstring option" where
  "kv_get now kv k =
     (case kv k of
        None \<Rightarrow> None
      | Some (v, expires) \<Rightarrow> (if now < expires then Some v else None))"

text \<open>All writes of one inbound message, requested at the time \<open>now\<close>.\<close>

definition kv_put_all :: "int \<Rightarrow> kv_write list \<Rightarrow> KVNamespace \<Rightarrow> KVNamespace" where
  "kv_put_all now ws kv = fold (kv_put now) ws kv"

record env =
  ACCESS_KEY :: "jsstring option"
  CODE_TTL_SECONDS :: "jsstring option"
  DOMAINS :: "jsstring option"
  ANYMAIL_CODES :: KVNamespace

text \<open>A request: its method, the path of its parsed URL and its headers (by lower-case
  name).\<close>

record request =
  request_method :: jsstring
  pathname :: jsstring
  request_headers :: headers

definition getAccessKey :: "(jsstring \<Rightarrow> jsstring) \<Rightarrow> request \<Rightarrow> jsstring" where
  "getAccessKey U req =
     (let auth = (case request_headers req (js ''authorization'') of
                    None \<Rightarrow> []
                  | Some a \<Rightarrow> a)
      in if startsWith (toLowerCase U auth) (js ''bearer '') then trim (drop 7 auth) else [])"

definition normalizeTtlSeconds :: "jsstring option \<Rightarrow> int" where
  "normalizeTtlSeconds v =
     (let parsed = parseInt (case v of None \<Rightarrow> [] | Some s \<Rightarrow> s)
      in case parsed of
           Num n \<Rightarrow> (if 0 < n then n else DEFAULT_TTL_SECONDS)
         | _ \<Rightarrow> DEFAULT_TTL_SECONDS)"

definition buildKey :: "jsstring \<Rightarrow> jsstring" where
  "buildKey email = js ''code:'' @ email"

definition parseDomains :: "(jsstring \<Rightarrow> jsstring) \<Rightarrow> jsstring option \<Rightarrow> jsstring list" where
  "parseDomains U v =
     (if \<not> truthy v then []
      else filter (\<lambda>domain. 0 < length domain)
             (map (\<lambda>domain. toLowerCase U (trim domain)) (split (the v) 0x2C)))"

text \<open>A response: the status and the data that \<^verbatim>\<open>JSON.stringify\<close> serialises into
  the body; the content type is the same in all responses.\<close>

datatype payload =
    ErrorPayload jsstring
  | DomainsPayload "jsstring list"
  | CodePayload jsstring

record response =
  status :: nat
  body :: payload
  content_type :: jsstring

definition json :: "payload \<Rightarrow> nat \<Rightarrow> response" where
  "json data st =
     \<lparr>status = st, body = data, content_type = js ''application/json; charset=utf-8''\<rparr>"

text \<open>The inbound handler \<^verbatim>\<open>email\<close>: its result is the list of the store writes it
  hands to \<^verbatim>\<open>ctx.waitUntil\<close>, or the error it throws.\<close>

definition email :: "(jsstring \<Rightarrow> jsstring) \<Rightarrow> message \<Rightarrow> env \<Rightarrow> error + kv_write list" where
  "email U m e =
     (let recipients = getRecipients U m
      in if length recipients = 0 then Inr []
         else
           let subject = (case headers m of
                            None \<Rightarrow> []
                          | Some h \<Rightarrow> (case h (js ''subject'') of None \<Rightarrow> [] | Some s \<Rightarrow> s))
           in case readRawText m of
                Inl err \<Rightarrow> Inl err
              | Inr rawText \<Rightarrow>
                  (let code = extractCode (subject @ [0x0A] @ rawText)
                   in if \<not> truthy code then Inr []
                      else
                        let ttlSeconds = normalizeTtlSeconds (CODE_TTL_SECONDS e)
                        in Inr (map (\<lambda>recipient.
                                  \<lparr>key = buildKey recipient, val = the code,
                                   expirationTtl = ttlSeconds\<rparr>) recipients)))"

text \<open>The lookup handler \<^verbatim>\<open>fetch\<close>, at the time \<open>now\<close> of the store's clock.\<close>

definition LEADING_SLASHES :: "atom list" where
  "LEADING_SLASHES = [Bol, Rep (\<lambda>c. c = 0x2F) 1 None]"

definition fetch ::
  "(jsstring \<Rightarrow> jsstring) \<Rightarrow> int \<Rightarrow> request \<Rightarrow> env \<Rightarrow> error + response" where
  "fetch U now req e =
     (if request_method req \<noteq> js ''GET'' then Inr (json (ErrorPayload (js ''method not allowed'')) 405)
      else
        let accessKey = getAccessKey U req
        in if \<not> truthy (ACCESS_KEY e) \<or> Some accessKey \<noteq> ACCESS_KEY e
           then Inr (json (ErrorPayload (js ''unauthorized'')) 401)
           else
             let path = replace (pathname req) LEADING_SLASHES []
             in if path = [] then Inr (json (DomainsPayload (parseDomains U (DOMAINS e))) 200)
                else case decodeURIComponent path of
                    Inl err \<Rightarrow> Inl err
                  | Inr decoded \<Rightarrow>
                      (let email = extractEmailAddress U (Some decoded)
                       in if \<not> truthy email
                          then Inr (json (ErrorPayload (js ''invalid email'')) 400)
                          else
                            let code = kv_get now (ANYMAIL_CODES e) (buildKey (the email))
                            in if \<not> truthy code then Inr (json (CodePayload []) 404)
                               else Inr (json (CodePayload (the code)) 200)))"

text \<open>
  The words of the specification for the lookup handler: the routing token is the path
  with its leading slashes stripped; the bearer credential of a request is what follows
  the scheme prefix of its \<^verbatim>\<open>Authorization\<close> header (the prefix compared after
  lower-casing), trimmed; a request is authorized when the configured access key is
  present, not empty and equal to that credential.
\<close>

definition routing_token :: "request \<Rightarrow> jsstring" where
  "routing_token req = dropWhile (\<lambda>c. c = 0x2F) (pathname req)"

definition bearer_credential :: "(jsstring \<Rightarrow> jsstring) \<Rightarrow> request \<Rightarrow> jsstring option" where
  "bearer_credential U req =
     (case request_headers req (js ''authorization'') of
        None \<Rightarrow> None
      | Some auth \<Rightarrow>
          (if startsWith (toLowerCase U auth) (js ''bearer '') then Some (trim (drop 7 auth))
           else None))"

definition authorized :: "(jsstring \<Rightarrow> jsstring) \<Rightarrow> request \<Rightarrow> env \<Rightarrow> bool" where
  "authorized U req e \<longleftrightarrow> truthy (ACCESS_KEY e) \<and> bearer_credential U req = ACCESS_KEY e"

definition unauthorized_response :: response where
  "unauthorized_response = json (ErrorPayload (js ''unauthorized'')) 401"

text \<open>
  The text the inbound handler scans: the subject of the message (empty without headers
  or without that header), a newline, and the text of the body (empty without a stream or
  when reading fails).
\<close>

definition message_subject :: "message \<Rightarrow> jsstring" where
  "message_subject m =
     (case headers m of
        None \<Rightarrow> []
      | Some h \<Rightarrow> (case h (js ''subject'') of None \<Rightarrow> [] | Some s \<Rightarrow> s))"

definition message_text :: "message \<Rightarrow> jsstring" where
  "message_text m =
     (case raw m of
        None \<Rightarrow> []
      | Some (Stream (Inl err)) \<Rightarrow> []
      | Some (Stream (Inr text)) \<Rightarrow> text)"

definition scanned_text :: "message \<Rightarrow> jsstring" where
  "scanned_text m = message_subject m @ [0x0A] @ message_text m"

text \<open>
  A valid representation of a positive integer, in the words of the specification: a
  non-empty string of decimal digits whose value is positive. A sign is nothing, a plus
  or a minus.
\<close>

definition positive_integer_string :: "jsstring \<Rightarrow> bool" where
  "positive_integer_string s \<longleftrightarrow> s \<noteq> [] \<and> list_all is_digit s \<and> 0 < digits_value s"

definition is_sign :: "jsstring \<Rightarrow> bool" where
  "is_sign sg \<longleftrightarrow> sg = [] \<or> sg = [0x2B] \<or> sg = [0x2D]"

section \<open>The matcher against the declarative reading\<close>

lemma try_down_None: "try_down f lo k = None \<longleftrightarrow> (\<forall>j. lo \<le> j \<and> j \<le> k \<longrightarrow> f j = None)"
proof (induction k)
  case 0
  then show ?case by auto
next
  case (Suc k)
  show ?case
  proof (cases "Suc k < lo")
    case True
    then show ?thesis by auto
  next
    case False
    show ?thesis
    proof (cases "f (Suc k)")
      case None
      then have "try_down f lo (Suc k) = try_down f lo k" using False by simp
      moreover have "(\<forall>j. lo \<le> j \<and> j \<le> Suc k \<longrightarrow> f j = None) \<longleftrightarrow>
          (\<forall>j. lo \<le> j \<and> j \<le> k \<longrightarrow> f j = None)"
        using None by (auto simp: le_Suc_eq)
      ultimately show ?thesis using Suc by simp
    next
      case (Some a)
      then have "try_down f lo (Suc k) = Some a" using False by simp
      moreover have "lo \<le> Suc k" using False by simp
      ultimately show ?thesis using Some by auto
    qed
  qed
qed

lemma try_down_Some:
  "try_down f lo k = Some e \<Longrightarrow>
   \<exists>j. lo \<le> j \<and> j \<le> k \<and> f j = Some e \<and> (\<forall>j'. j < j' \<and> j' \<le> k \<longrightarrow> f j' = None)"
proof (induction k)
  case 0
  then show ?case by (auto split: if_splits)
next
  case (Suc k)
  show ?case
  proof (cases "f (Suc k)")
    case None
    with Suc.prems have "try_down f lo k = Some e" by (auto split: if_splits)
    from Suc.IH [OF this] obtain j where j: "lo \<le> j" "j \<le> k" "f j = Some e"
      "\<forall>j'. j < j' \<and> j' \<le> k \<longrightarrow> f j' = None" by blast
    have "\<forall>j'. j < j' \<and> j' \<le> Suc k \<longrightarrow> f j' = None"
      using j(4) None by (auto simp: le_Suc_eq)
    with j show ?thesis by (intro exI [of _ j]) auto
  next
    case (Some a)
    with Suc.prems have "a = e" "lo \<le> Suc k" by (auto split: if_splits)
    with Some show ?thesis by (intro exI [of _ "Suc k"]) auto
  qed
qed

lemma run_le_iff:
  "k \<le> length (takeWhile c (drop i s)) \<longleftrightarrow> k \<le> length s - i \<and> (\<forall>j < k. c (s ! (i + j)))"
proof
  assume k: "k \<le> length (takeWhile c (drop i s))"
  have le: "length (takeWhile c (drop i s)) \<le> length (drop i s)"
    by (rule length_takeWhile_le)
  have "c (s ! (i + j))" if "j < k" for j
  proof -
    from that k have j: "j < length (takeWhile c (drop i s))" by simp
    then have "takeWhile c (drop i s) ! j \<in> set (takeWhile c (drop i s))" by simp
    then have "c (takeWhile c (drop i s) ! j)" by (rule set_takeWhileD [THEN conjunct2])
    moreover have "takeWhile c (drop i s) ! j = drop i s ! j" using j by (rule takeWhile_nth)
    moreover have "drop i s ! j = s ! (i + j)" using j le by simp
    ultimately show ?thesis by simp
  qed
  with k le show "k \<le> length s - i \<and> (\<forall>j < k. c (s ! (i + j)))" by simp
next
  assume a: "k \<le> length s - i \<and> (\<forall>j < k. c (s ! (i + j)))"
  show "k \<le> length (takeWhile c (drop i s))"
  proof (rule length_takeWhile_less_P_nth)
    fix j assume "j < k"
    with a have "i + j < length s" "c (s ! (i + j))" by auto
    then show "c (drop i s ! j)" by simp
  next
    from a show "k \<le> length (drop i s)" by simp
  qed
qed

lemma cap_le_iff: "k \<le> cap hi n \<longleftrightarrow> within hi k \<and> k \<le> n"
  by (auto simp: cap_def within_def split: option.splits)

lemma rmatch_sound: "rmatch r s i = Some e \<Longrightarrow> matches r s i e"
proof (induction r arbitrary: i)
  case Nil
  then show ?case by simp
next
  case (Cons a r)
  show ?case
  proof (cases a)
    case (Chr c)
    with Cons.prems have "i < length s" "c (s ! i)" "rmatch r s (Suc i) = Some e"
      by (simp_all split: if_splits)
    with Cons.IH [of "Suc i"] Chr show ?thesis by simp
  next
    case (Rep c lo hi)
    with Cons.prems have
      "try_down (\<lambda>k. rmatch r s (i + k)) lo (cap hi (length (takeWhile c (drop i s)))) = Some e"
      by simp
    from try_down_Some [OF this] obtain k where k: "lo \<le> k"
      "k \<le> cap hi (length (takeWhile c (drop i s)))" "rmatch r s (i + k) = Some e" by blast
    from k(2) have "within hi k" "k \<le> length s - i" "\<forall>j < k. c (s ! (i + j))"
      by (simp_all add: cap_le_iff run_le_iff)
    moreover have "matches r s (i + k) e" using Cons.IH [OF k(3)] .
    ultimately have "\<exists>k \<le> length s - i. lo \<le> k \<and> within hi k \<and> (\<forall>j < k. c (s ! (i + j)))
             \<and> matches r s (i + k) e" using k(1) by blast
    with Rep show ?thesis by simp
  next
    case WordB
    with Cons.prems have "word_boundary s i" "rmatch r s i = Some e"
      by (simp_all split: if_splits)
    with Cons.IH [of i] WordB show ?thesis by simp
  next
    case Bol
    with Cons.prems have "i = 0" "rmatch r s 0 = Some e"
      by (simp_all split: if_splits)
    with Cons.IH [of 0] Bol show ?thesis by simp
  qed
qed

lemma rmatch_complete: "matches r s i e \<Longrightarrow> rmatch r s i \<noteq> None"
proof (induction r arbitrary: i)
  case Nil
  then show ?case by simp
next
  case (Cons a r)
  show ?case
  proof (cases a)
    case (Chr c)
    with Cons.prems have "i < length s" "c (s ! i)" "matches r s (Suc i) e" by simp_all
    with Cons.IH [of "Suc i"] Chr show ?thesis by simp
  next
    case (Rep c lo hi)
    with Cons.prems have "\<exists>k \<le> length s - i. lo \<le> k \<and> within hi k \<and> (\<forall>j < k. c (s ! (i + j)))
             \<and> matches r s (i + k) e" by simp
    then obtain k where k: "k \<le> length s - i" "lo \<le> k" "within hi k"
      "\<forall>j < k. c (s ! (i + j))" "matches r s (i + k) e" by blast
    have kc: "k \<le> cap hi (length (takeWhile c (drop i s)))"
      unfolding cap_le_iff run_le_iff using k(1,3,4) by blast
    have nn: "rmatch r s (i + k) \<noteq> None" using Cons.IH [OF k(5)] .
    have "try_down (\<lambda>k. rmatch r s (i + k)) lo (cap hi (length (takeWhile c (drop i s)))) \<noteq> None"
    proof
      assume "try_down (\<lambda>k. rmatch r s (i + k)) lo (cap hi (length (takeWhile c (drop i s)))) = None"
      then have "\<forall>j. lo \<le> j \<and> j \<le> cap hi (length (takeWhile c (drop i s)))
          \<longrightarrow> rmatch r s (i + j) = None"
        by (rule try_down_None [THEN iffD1])
      with k(2) kc have "rmatch r s (i + k) = None" by blast
      with nn show False by contradiction
    qed
    with Rep show ?thesis by simp
  next
    case WordB
    with Cons.prems have "word_boundary s i" "matches r s i e" by simp_all
    with Cons.IH [of i] WordB show ?thesis by simp
  next
    case Bol
    with Cons.prems have "i = 0" "matches r s 0 e" by auto
    with Cons.IH [of 0] Bol show ?thesis by simp
  qed
qed

lemma rmatch_None_iff: "rmatch r s i = None \<longleftrightarrow> (\<forall>e. \<not> matches r s i e)"
proof
  assume "rmatch r s i = None"
  then show "\<forall>e. \<not> matches r s i e" using rmatch_complete by blast
next
  assume a: "\<forall>e. \<not> matches r s i e"
  show "rmatch r s i = None"
  proof (cases "rmatch r s i")
    case None
    then show ?thesis .
  next
    case (Some e)
    then have "matches r s i e" by (rule rmatch_sound)
    with a show ?thesis by blast
  qed
qed

lemma matches_bounds: "matches r s i e \<Longrightarrow> i \<le> e \<and> (i \<le> length s \<longrightarrow> e \<le> length s)"
proof (induction r arbitrary: i)
  case Nil
  then show ?case by simp
next
  case (Cons a r)
  show ?case
  proof (cases a)
    case (Chr c)
    with Cons.prems have "i < length s" "matches r s (Suc i) e" by simp_all
    with Cons.IH [of "Suc i"] show ?thesis by simp
  next
    case (Rep c lo hi)
    with Cons.prems have "\<exists>k \<le> length s - i. matches r s (i + k) e" by auto
    then obtain k where "k \<le> length s - i" "matches r s (i + k) e" by blast
    with Cons.IH [of "i + k"] show ?thesis by auto
  next
    case WordB
    with Cons.prems have "matches r s i e" by simp
    with Cons.IH [of i] show ?thesis by simp
  next
    case Bol
    with Cons.prems have "i = 0" "matches r s 0 e" by auto
    with Cons.IH [of 0] show ?thesis by simp
  qed
qed

lemma exec_from_Some:
  "exec_from r s i n = Some (j, e) \<Longrightarrow>
   i \<le> j \<and> j < i + n \<and> rmatch r s j = Some e \<and> (\<forall>j'. i \<le> j' \<and> j' < j \<longrightarrow> rmatch r s j' = None)"
proof (induction n arbitrary: i)
  case 0
  then show ?case by simp
next
  case (Suc n)
  show ?case
  proof (cases "rmatch r s i")
    case None
    with Suc.prems have "exec_from r s (Suc i) n = Some (j, e)" by simp
    from Suc.IH [OF this] have ih: "Suc i \<le> j" "j < Suc i + n" "rmatch r s j = Some e"
      "\<forall>j'. Suc i \<le> j' \<and> j' < j \<longrightarrow> rmatch r s j' = None" by simp_all
    have "rmatch r s j' = None" if "i \<le> j'" "j' < j" for j'
    proof (cases "j' = i")
      case True
      with None show ?thesis by simp
    next
      case False
      with that have "Suc i \<le> j'" by simp
      with ih(4) that show ?thesis by simp
    qed
    with ih show ?thesis by auto
  next
    case (Some e')
    with Suc.prems have "j = i" "e' = e" by simp_all
    with Some show ?thesis by auto
  qed
qed

lemma exec_from_None:
  "exec_from r s i n = None \<longleftrightarrow> (\<forall>j. i \<le> j \<and> j < i + n \<longrightarrow> rmatch r s j = None)"
proof (induction n arbitrary: i)
  case 0
  then show ?case by auto
next
  case (Suc n)
  show ?case
  proof (cases "rmatch r s i")
    case None
    then have "exec_from r s i (Suc n) = exec_from r s (Suc i) n" by simp
    moreover have "(\<forall>j. i \<le> j \<and> j < i + Suc n \<longrightarrow> rmatch r s j = None) \<longleftrightarrow>
        (\<forall>j. Suc i \<le> j \<and> j < Suc i + n \<longrightarrow> rmatch r s j = None)"
    proof
      assume "\<forall>j. i \<le> j \<and> j < i + Suc n \<longrightarrow> rmatch r s j = None"
      then show "\<forall>j. Suc i \<le> j \<and> j < Suc i + n \<longrightarrow> rmatch r s j = None" by simp
    next
      assume a: "\<forall>j. Suc i \<le> j \<and> j < Suc i + n \<longrightarrow> rmatch r s j = None"
      show "\<forall>j. i \<le> j \<and> j < i + Suc n \<longrightarrow> rmatch r s j = None"
      proof (intro allI impI)
        fix j assume j: "i \<le> j \<and> j < i + Suc n"
        show "rmatch r s j = None"
        proof (cases "j = i")
          case True
          with None show ?thesis by simp
        next
          case False
          with j have "Suc i \<le> j \<and> j < Suc i + n" by simp
          with a show ?thesis by blast
        qed
      qed
    qed
    ultimately show ?thesis using Suc.IH [of "Suc i"] by simp
  next
    case (Some e)
    then have "exec_from r s i (Suc n) \<noteq> None" by simp
    moreover have "\<not> (\<forall>j. i \<le> j \<and> j < i + Suc n \<longrightarrow> rmatch r s j = None)"
      using Some by (intro notI) (drule spec [of _ i], simp)
    ultimately show ?thesis by blast
  qed
qed

lemma regexp_exec_Some:
  "regexp_exec r s = Some (i, e) \<Longrightarrow>
   i \<le> length s \<and> rmatch r s i = Some e \<and> (\<forall>j < i. rmatch r s j = None)"
  unfolding regexp_exec_def by (drule exec_from_Some) simp

lemma regexp_exec_None:
  "regexp_exec r s = None \<longleftrightarrow> (\<forall>i \<le> length s. rmatch r s i = None)"
  unfolding regexp_exec_def exec_from_None by (simp add: less_Suc_eq_le)

lemma regexp_exec_first:
  assumes "i \<le> length s" "rmatch r s i = Some e" "\<forall>j < i. rmatch r s j = None"
  shows "regexp_exec r s = Some (i, e)"
proof -
  from assms(1,2) have "regexp_exec r s \<noteq> None" unfolding regexp_exec_None by auto
  then obtain i' e' where x: "regexp_exec r s = Some (i', e')" by auto
  from regexp_exec_Some [OF this] have y: "rmatch r s i' = Some e'" "\<forall>j < i'. rmatch r s j = None"
    by auto
  have "\<not> i' < i" using assms(3) y(1) by auto
  moreover have "\<not> i < i'" using assms(2) y(2) by auto
  ultimately have "i' = i" by simp
  with assms y x show ?thesis by simp
qed

section \<open>The address pattern\<close>

lemmas class_defs = icase_def local_class_def domain_class_def is_upper_def is_lower_def
  is_digit_def js_def ascii_lower_def

lemma local_class_facts:
  "icase local_class c \<Longrightarrow> c < 0x80 \<and> c \<noteq> 0x40 \<and> icase local_class (ascii_lower c)"
  by (auto simp: class_defs)

lemma domain_class_facts:
  "icase domain_class c \<Longrightarrow> c < 0x80 \<and> c \<noteq> 0x40 \<and> icase domain_class (ascii_lower c)"
  by (auto simp: class_defs)

lemma letter_class_facts:
  "icase is_upper c \<Longrightarrow>
   c < 0x80 \<and> c \<noteq> 0x2E \<and> icase domain_class c \<and> icase is_upper (ascii_lower c)"
  by (auto simp: class_defs)

lemma icase_literal: "c < 0x41 \<Longrightarrow> icase (\<lambda>x. x = c) d \<longleftrightarrow> d = c"
  by (auto simp: class_defs)

lemma ascii_lower_idem: "ascii_lower (ascii_lower c) = ascii_lower c"
  by (auto simp: class_defs)

lemma ascii_lower_fix: "ascii_lower 0x40 = 0x40" "ascii_lower 0x2E = 0x2E"
  by (auto simp: class_defs)

lemma ascii_lower_ascii: "c < 0x80 \<Longrightarrow> ascii_lower c < 0x80"
  by (auto simp: class_defs)

lemma matches_RepI:
  "k \<le> length s - i \<Longrightarrow> lo \<le> k \<Longrightarrow> within hi k \<Longrightarrow> \<forall>j < k. c (s ! (i + j)) \<Longrightarrow>
   matches r s (i + k) e \<Longrightarrow> matches (Rep c lo hi # r) s i e"
  by auto

lemma matches_ChrI:
  "i < length s \<Longrightarrow> c (s ! i) \<Longrightarrow> matches r s (Suc i) e \<Longrightarrow> matches (Chr c # r) s i e"
  by simp

lemma matches_email_iff:
  "matches EMAIL_REGEX s i e \<longleftrightarrow>
   (\<exists>k1 k2 k3. address_shape s i k1 k2 k3 \<and> e = i + k1 + k2 + k3 + 2)"
proof
  assume "matches EMAIL_REGEX s i e"
  then obtain k1 k2 k3 where
    "k1 \<le> length s - i" "1 \<le> k1" "\<forall>j < k1. icase local_class (s ! (i + j))"
    "i + k1 < length s" "s ! (i + k1) = 0x40"
    "k2 \<le> length s - Suc (i + k1)" "1 \<le> k2" "\<forall>j < k2. icase domain_class (s ! (Suc (i + k1) + j))"
    "Suc (i + k1) + k2 < length s" "s ! (Suc (i + k1) + k2) = 0x2E"
    "k3 \<le> length s - Suc (Suc (i + k1) + k2)" "2 \<le> k3"
    "\<forall>j < k3. icase is_upper (s ! (Suc (Suc (i + k1) + k2) + j))"
    "e = Suc (Suc (i + k1) + k2) + k3"
    by (auto simp: EMAIL_REGEX_def within_def icase_literal)
  then have "address_shape s i k1 k2 k3 \<and> e = i + k1 + k2 + k3 + 2"
    by (simp add: address_shape_def add.commute add.left_commute)
  then show "\<exists>k1 k2 k3. address_shape s i k1 k2 k3 \<and> e = i + k1 + k2 + k3 + 2" by blast
next
  assume "\<exists>k1 k2 k3. address_shape s i k1 k2 k3 \<and> e = i + k1 + k2 + k3 + 2"
  then obtain k1 k2 k3 where a: "address_shape s i k1 k2 k3" and e: "e = i + k1 + k2 + k3 + 2"
    by blast
  from a have 1: "k1 \<le> length s - i" "1 \<le> k1" "\<forall>j < k1. icase local_class (s ! (i + j))"
    "i + k1 < length s" "s ! (i + k1) = 0x40"
    by (auto simp: address_shape_def)
  from a have 2: "k2 \<le> length s - Suc (i + k1)" "1 \<le> k2"
    "\<forall>j < k2. icase domain_class (s ! (Suc (i + k1) + j))"
    "Suc (i + k1) + k2 < length s" "s ! (Suc (i + k1) + k2) = 0x2E"
    by (auto simp: address_shape_def add.commute add.left_commute)
  from a have 3: "k3 \<le> length s - Suc (Suc (i + k1) + k2)" "2 \<le> k3"
    "\<forall>j < k3. icase is_upper (s ! (Suc (Suc (i + k1) + k2) + j))"
    by (auto simp: address_shape_def add.commute add.left_commute)
  have m3: "matches [Rep (icase is_upper) 2 None] s (Suc (Suc (i + k1) + k2)) e"
    by (rule matches_RepI [of k3]) (use 3 e in \<open>simp_all add: within_def\<close>)
  have m2: "matches [Chr (icase (\<lambda>c. c = 0x2E)), Rep (icase is_upper) 2 None] s
      (Suc (i + k1) + k2) e"
    by (rule matches_ChrI) (use 2 m3 in \<open>simp_all add: icase_literal del: matches.simps\<close>)
  have m1: "matches [Rep (icase domain_class) 1 None, Chr (icase (\<lambda>c. c = 0x2E)),
      Rep (icase is_upper) 2 None] s (Suc (i + k1)) e"
    by (rule matches_RepI [of k2]) (use 2 m2 in \<open>simp_all add: within_def del: matches.simps\<close>)
  have m0: "matches [Chr (icase (\<lambda>c. c = 0x40)), Rep (icase domain_class) 1 None,
      Chr (icase (\<lambda>c. c = 0x2E)), Rep (icase is_upper) 2 None] s (i + k1) e"
    by (rule matches_ChrI) (use 1 m1 in \<open>simp_all add: icase_literal del: matches.simps\<close>)
  show "matches EMAIL_REGEX s i e"
    unfolding EMAIL_REGEX_def
    by (rule matches_RepI [of k1]) (use 1 m0 in \<open>simp_all add: within_def del: matches.simps\<close>)
qed

lemma rmatch_Rep_Some:
  assumes "rmatch (Rep c lo hi # r) s i = Some e"
  obtains k where "lo \<le> k" "within hi k" "k \<le> length s - i" "\<forall>j < k. c (s ! (i + j))"
    "rmatch r s (i + k) = Some e"
    "\<forall>k'. k < k' \<and> within hi k' \<and> k' \<le> length s - i \<and> (\<forall>j < k'. c (s ! (i + j)))
        \<longrightarrow> rmatch r s (i + k') = None"
proof -
  from assms have
    "try_down (\<lambda>k. rmatch r s (i + k)) lo (cap hi (length (takeWhile c (drop i s)))) = Some e"
    by simp
  from try_down_Some [OF this] obtain k where k: "lo \<le> k"
    "k \<le> cap hi (length (takeWhile c (drop i s)))" "rmatch r s (i + k) = Some e"
    "\<forall>k'. k < k' \<and> k' \<le> cap hi (length (takeWhile c (drop i s))) \<longrightarrow> rmatch r s (i + k') = None"
    by blast
  from k(2) have "within hi k" "k \<le> length s - i" "\<forall>j < k. c (s ! (i + j))"
    by (simp_all add: cap_le_iff run_le_iff)
  moreover have "\<forall>k'. k < k' \<and> within hi k' \<and> k' \<le> length s - i \<and> (\<forall>j < k'. c (s ! (i + j)))
        \<longrightarrow> rmatch r s (i + k') = None"
    using k(4) unfolding cap_le_iff run_le_iff by blast
  ultimately show thesis using k(1,3) that by blast
qed

lemma rmatch_Chr_Some:
  "rmatch (Chr c # r) s i = Some e \<longleftrightarrow> i < length s \<and> c (s ! i) \<and> rmatch r s (Suc i) = Some e"
  by auto

lemma shape_tail:
  assumes "address_shape s i k1 k2 k3"
  shows "matches [Chr (icase (\<lambda>c. c = 0x2E)), Rep (icase is_upper) 2 None] s
      (Suc (i + k1) + k2) (i + k1 + k2 + k3 + 2)"
proof -
  from assms have 2: "Suc (i + k1) + k2 < length s" "s ! (Suc (i + k1) + k2) = 0x2E"
    by (auto simp: address_shape_def add.commute add.left_commute)
  from assms have 3: "k3 \<le> length s - Suc (Suc (i + k1) + k2)" "2 \<le> k3"
    "\<forall>j < k3. icase is_upper (s ! (Suc (Suc (i + k1) + k2) + j))"
    by (auto simp: address_shape_def add.commute add.left_commute)
  have m3: "matches [Rep (icase is_upper) 2 None] s (Suc (Suc (i + k1) + k2)) (i + k1 + k2 + k3 + 2)"
    by (rule matches_RepI [of k3]) (use 3 in \<open>simp_all add: within_def\<close>)
  show ?thesis
    by (rule matches_ChrI) (use 2 m3 in \<open>simp_all add: icase_literal del: matches.simps\<close>)
qed

text \<open>The match the matcher returns at an index is the longest match at that index.\<close>

lemma email_longest:
  assumes r: "rmatch EMAIL_REGEX s i = Some e" and m: "matches EMAIL_REGEX s i e'"
  shows "e' \<le> e"
proof -
  from m obtain k1' k2' k3' where sh: "address_shape s i k1' k2' k3'"
    and e': "e' = i + k1' + k2' + k3' + 2"
    unfolding matches_email_iff by blast
  from r [unfolded EMAIL_REGEX_def] obtain k1 where k1: "1 \<le> k1" "k1 \<le> length s - i"
    "\<forall>j < k1. icase local_class (s ! (i + j))"
    and r1: "rmatch [Chr (icase (\<lambda>c. c = 0x40)), Rep (icase domain_class) 1 None,
      Chr (icase (\<lambda>c. c = 0x2E)), Rep (icase is_upper) 2 None] s (i + k1) = Some e"
    by (rule rmatch_Rep_Some) blast
  from r1 have at: "i + k1 < length s" "s ! (i + k1) = 0x40"
    and r2: "rmatch [Rep (icase domain_class) 1 None,
      Chr (icase (\<lambda>c. c = 0x2E)), Rep (icase is_upper) 2 None] s (Suc (i + k1)) = Some e"
    unfolding rmatch_Chr_Some by (simp_all add: icase_literal)
  from r2 obtain k2 where k2: "1 \<le> k2" "k2 \<le> length s - Suc (i + k1)"
    "\<forall>j < k2. icase domain_class (s ! (Suc (i + k1) + j))"
    and r3: "rmatch [Chr (icase (\<lambda>c. c = 0x2E)), Rep (icase is_upper) 2 None] s
        (Suc (i + k1) + k2) = Some e"
    and max2: "\<forall>k'. k2 < k' \<and> within None k' \<and> k' \<le> length s - Suc (i + k1) \<and>
        (\<forall>j < k'. icase domain_class (s ! (Suc (i + k1) + j)))
        \<longrightarrow> rmatch [Chr (icase (\<lambda>c. c = 0x2E)), Rep (icase is_upper) 2 None] s
              (Suc (i + k1) + k') = None"
    by (rule rmatch_Rep_Some) blast
  from r3 have dot: "Suc (i + k1) + k2 < length s" "s ! (Suc (i + k1) + k2) = 0x2E"
    and r4: "rmatch [Rep (icase is_upper) 2 None] s (Suc (Suc (i + k1) + k2)) = Some e"
    unfolding rmatch_Chr_Some by (simp_all add: icase_literal)
  from r4 obtain k3 where k3: "2 \<le> k3" "k3 \<le> length s - Suc (Suc (i + k1) + k2)"
    and r5: "rmatch [] s (Suc (Suc (i + k1) + k2) + k3) = Some e"
    and max3: "\<forall>k'. k3 < k' \<and> within None k' \<and> k' \<le> length s - Suc (Suc (i + k1) + k2) \<and>
        (\<forall>j < k'. icase is_upper (s ! (Suc (Suc (i + k1) + k2) + j)))
        \<longrightarrow> rmatch [] s (Suc (Suc (i + k1) + k2) + k') = None"
    by (rule rmatch_Rep_Some) blast
  from r5 have e: "e = i + k1 + k2 + k3 + 2" by simp
  from sh have p1: "1 \<le> k1'" "1 \<le> k2'" "2 \<le> k3'" "i + k1' + k2' + k3' + 2 \<le> length s"
    "\<forall>j < k1'. icase local_class (s ! (i + j))" "s ! (i + k1') = 0x40"
    "\<forall>j < k2'. icase domain_class (s ! (i + k1' + 1 + j))" "s ! (i + k1' + 1 + k2') = 0x2E"
    "\<forall>j < k3'. icase is_upper (s ! (i + k1' + k2' + 2 + j))"
    unfolding address_shape_def by blast+
  have eq1: "k1' = k1"
  proof (rule ccontr)
    assume "k1' \<noteq> k1"
    then consider "k1 < k1'" | "k1' < k1" by linarith
    then show False
    proof cases
      case 1
      with p1(5) have "icase local_class (s ! (i + k1))" by blast
      with at(2) show False using local_class_facts by force
    next
      case 2
      with k1(3) have "icase local_class (s ! (i + k1'))" by blast
      with p1(6) show False using local_class_facts by force
    qed
  qed
  have le2: "k2' \<le> k2"
  proof (rule ccontr)
    assume "\<not> k2' \<le> k2"
    then have "k2 < k2'" by simp
    moreover have "k2' \<le> length s - Suc (i + k1)" using p1(4) eq1 by simp
    moreover have "\<forall>j < k2'. icase domain_class (s ! (Suc (i + k1) + j))"
      using p1(7) eq1 by simp
    moreover have "within None k2'" by (simp add: within_def)
    ultimately have "rmatch [Chr (icase (\<lambda>c. c = 0x2E)), Rep (icase is_upper) 2 None] s
              (Suc (i + k1) + k2') = None"
      using max2 by blast
    moreover have "matches [Chr (icase (\<lambda>c. c = 0x2E)), Rep (icase is_upper) 2 None] s
              (Suc (i + k1) + k2') e'"
      using shape_tail [OF sh] eq1 e' by (simp del: matches.simps)
    then have "rmatch [Chr (icase (\<lambda>c. c = 0x2E)), Rep (icase is_upper) 2 None] s
              (Suc (i + k1) + k2') \<noteq> None"
      by (rule rmatch_complete)
    ultimately show False by contradiction
  qed
  show ?thesis
  proof (cases "k2' = k2")
    case True
    have "k3' \<le> k3"
    proof (rule ccontr)
      assume "\<not> k3' \<le> k3"
      then have "k3 < k3'" by simp
      moreover have "k3' \<le> length s - Suc (Suc (i + k1) + k2)" using p1(4) eq1 True by simp
      moreover have "\<forall>j < k3'. icase is_upper (s ! (Suc (Suc (i + k1) + k2) + j))"
        using p1(9) eq1 True by simp
      moreover have "within None k3'" by (simp add: within_def)
      ultimately have "rmatch [] s (Suc (Suc (i + k1) + k2) + k3') = None"
        using max3 by blast
      then show False by simp
    qed
    with e e' eq1 True show ?thesis by simp
  next
    case False
    with le2 have lt: "k2' < k2" by simp
    have "k2' + 1 + k3' \<le> k2"
    proof (rule ccontr)
      assume "\<not> k2' + 1 + k3' \<le> k2"
      with lt have "k2 - k2' - 1 < k3'" by simp
      with p1(9) have "icase is_upper (s ! (i + k1' + k2' + 2 + (k2 - k2' - 1)))" by blast
      moreover have "i + k1' + k2' + 2 + (k2 - k2' - 1) = Suc (i + k1) + k2"
        using lt eq1 by simp
      ultimately have "icase is_upper (s ! (Suc (i + k1) + k2))" by (simp only:)
      with dot(2) show False using letter_class_facts by force
    qed
    with e e' eq1 show ?thesis by simp
  qed
qed

lemma nth_slice: "e \<le> length s \<Longrightarrow> j < e - i \<Longrightarrow> slice s i e ! j = s ! (i + j)"
  by (simp add: slice_def)

lemma length_slice: "e \<le> length s \<Longrightarrow> length (slice s i e) = e - i"
  by (simp add: slice_def)

lemma shape_lower_slice:
  assumes "address_shape s i k1 k2 k3"
  shows "address_shape (map ascii_lower (slice s i (i + k1 + k2 + k3 + 2))) 0 k1 k2 k3"
proof -
  let ?e = "i + k1 + k2 + k3 + 2"
  from assms have b: "1 \<le> k1" "1 \<le> k2" "2 \<le> k3" "?e \<le> length s"
    and l: "\<forall>j < k1. icase local_class (s ! (i + j))"
    and a: "s ! (i + k1) = 0x40"
    and d: "\<forall>j < k2. icase domain_class (s ! (i + k1 + 1 + j))"
    and p: "s ! (i + k1 + 1 + k2) = 0x2E"
    and t: "\<forall>j < k3. icase is_upper (s ! (i + k1 + k2 + 2 + j))"
    unfolding address_shape_def by blast+
  have len: "length (slice s i ?e) = k1 + k2 + k3 + 2"
    using b(4) by (simp add: length_slice)
  have nth: "map ascii_lower (slice s i ?e) ! j = ascii_lower (s ! (i + j))"
    if "j < k1 + k2 + k3 + 2" for j
    using that b(4) len by (simp add: nth_slice)
  have 1: "\<forall>j < k1. icase local_class (map ascii_lower (slice s i ?e) ! (0 + j))"
    using l nth local_class_facts by simp
  have 2: "map ascii_lower (slice s i ?e) ! (0 + k1) = 0x40"
    using a nth [of k1] by (simp add: ascii_lower_fix)
  have 3: "\<forall>j < k2. icase domain_class (map ascii_lower (slice s i ?e) ! (0 + k1 + 1 + j))"
  proof (intro allI impI)
    fix j assume "j < k2"
    with d have "icase domain_class (ascii_lower (s ! (i + k1 + 1 + j)))"
      using domain_class_facts by blast
    moreover have "map ascii_lower (slice s i ?e) ! (k1 + 1 + j) = ascii_lower (s ! (i + (k1 + 1 + j)))"
      using \<open>j < k2\<close> by (intro nth) simp
    ultimately show "icase domain_class (map ascii_lower (slice s i ?e) ! (0 + k1 + 1 + j))"
      by (simp add: add.assoc)
  qed
  have 4: "map ascii_lower (slice s i ?e) ! (0 + k1 + 1 + k2) = 0x2E"
  proof -
    have "map ascii_lower (slice s i ?e) ! (k1 + 1 + k2) = ascii_lower (s ! (i + (k1 + 1 + k2)))"
      using b by (intro nth) simp
    with p show ?thesis by (simp add: ascii_lower_fix add.assoc)
  qed
  have 5: "\<forall>j < k3. icase is_upper (map ascii_lower (slice s i ?e) ! (0 + k1 + k2 + 2 + j))"
  proof (intro allI impI)
    fix j assume "j < k3"
    with t have "icase is_upper (ascii_lower (s ! (i + k1 + k2 + 2 + j)))"
      using letter_class_facts by blast
    moreover have "map ascii_lower (slice s i ?e) ! (k1 + k2 + 2 + j)
        = ascii_lower (s ! (i + (k1 + k2 + 2 + j)))"
      using \<open>j < k3\<close> by (intro nth) simp
    ultimately show "icase is_upper (map ascii_lower (slice s i ?e) ! (0 + k1 + k2 + 2 + j))"
      by (simp add: add.assoc)
  qed
  show ?thesis
    unfolding address_shape_def using b(1-3) len 1 2 3 4 5 by simp
qed

lemma shape_ascii:
  assumes "address_shape s i k1 k2 k3" "j < k1 + k2 + k3 + 2"
  shows "s ! (i + j) < 0x80"
proof -
  from assms have l: "\<forall>j < k1. icase local_class (s ! (i + j))"
    and a: "s ! (i + k1) = 0x40"
    and d: "\<forall>j < k2. icase domain_class (s ! (i + k1 + 1 + j))"
    and p: "s ! (i + k1 + 1 + k2) = 0x2E"
    and t: "\<forall>j < k3. icase is_upper (s ! (i + k1 + k2 + 2 + j))"
    unfolding address_shape_def by blast+
  consider "j < k1" | "j = k1" | "k1 < j" "j < k1 + 1 + k2" | "j = k1 + 1 + k2"
    | "k1 + 1 + k2 < j" using assms(2) by linarith
  then show ?thesis
  proof cases
    case 1
    with l show ?thesis using local_class_facts by blast
  next
    case 2
    with a show ?thesis by simp
  next
    case 3
    then have "j - k1 - 1 < k2" "i + k1 + 1 + (j - k1 - 1) = i + j" by simp_all
    with d show ?thesis using domain_class_facts by metis
  next
    case 4
    with p show ?thesis by (simp add: add.assoc)
  next
    case 5
    with assms(2) have "j - k1 - k2 - 2 < k3" "i + k1 + k2 + 2 + (j - k1 - k2 - 2) = i + j"
      by simp_all
    with t show ?thesis using letter_class_facts by metis
  qed
qed

lemma matches_email_ascii:
  assumes "matches EMAIL_REGEX s i e"
  shows "list_all (\<lambda>c. c < 0x80) (slice s i e)"
proof -
  from assms obtain k1 k2 k3 where sh: "address_shape s i k1 k2 k3"
    and e: "e = i + k1 + k2 + k3 + 2"
    unfolding matches_email_iff by blast
  from sh have le: "e \<le> length s" unfolding address_shape_def e by simp
  have "slice s i e ! j < 0x80" if "j < length (slice s i e)" for j
  proof -
    from that le have j: "j < e - i" by (simp add: length_slice)
    with e have "j < k1 + k2 + k3 + 2" by simp
    from shape_ascii [OF sh this] show ?thesis using le j by (simp add: nth_slice)
  qed
  then show ?thesis unfolding list_all_length by blast
qed

lemma email_full:
  assumes "matches EMAIL_REGEX m 0 (length m)"
  shows "regexp_exec EMAIL_REGEX m = Some (0, length m)"
proof -
  from assms have "rmatch EMAIL_REGEX m 0 \<noteq> None" by (rule rmatch_complete)
  then obtain e where e: "rmatch EMAIL_REGEX m 0 = Some e" by blast
  from email_longest [OF e assms] have "length m \<le> e" .
  moreover from matches_bounds [OF rmatch_sound [OF e]] have "e \<le> length m" by simp
  ultimately have "rmatch EMAIL_REGEX m 0 = Some (length m)" using e by simp
  then show ?thesis by (intro regexp_exec_first) simp_all
qed

lemma slice_whole: "slice m 0 (length m) = m"
  by (simp add: slice_def)

lemma lower_twice: "map ascii_lower (map ascii_lower m) = map ascii_lower m"
  by (simp add: ascii_lower_idem)

text \<open>What \<open>extractEmailAddress\<close> returns, in terms of the match.\<close>

lemma extractEmailAddress_Some:
  assumes "regexp_exec EMAIL_REGEX s = Some (i, e)"
  shows "extractEmailAddress U (Some s) = Some (map ascii_lower (slice s i e))"
proof -
  from regexp_exec_Some [OF assms] have m: "matches EMAIL_REGEX s i e"
    using rmatch_sound by blast
  then obtain k1 k2 k3 where "address_shape s i k1 k2 k3" unfolding matches_email_iff by blast
  then have "s \<noteq> []" unfolding address_shape_def by auto
  moreover have "toLowerCase U (slice s i e) = map ascii_lower (slice s i e)"
    using matches_email_ascii [OF m] by (simp add: toLowerCase_def)
  ultimately show ?thesis using assms
    by (simp add: extractEmailAddress_def truthy_def string_match_def)
qed

lemma extractEmailAddress_None:
  assumes "regexp_exec EMAIL_REGEX s = None"
  shows "extractEmailAddress U (Some s) = None"
  using assms by (simp add: extractEmailAddress_def string_match_def)

lemma extractEmailAddress_cases:
  "extractEmailAddress U v =
     (case v of
        None \<Rightarrow> None
      | Some s \<Rightarrow>
          (case regexp_exec EMAIL_REGEX s of
             None \<Rightarrow> None
           | Some (i, e) \<Rightarrow> Some (map ascii_lower (slice s i e))))"
proof (cases v)
  case None
  then show ?thesis by (simp add: extractEmailAddress_def truthy_def)
next
  case (Some s)
  show ?thesis
  proof (cases "regexp_exec EMAIL_REGEX s")
    case None
    with Some show ?thesis by (simp add: extractEmailAddress_None)
  next
    case (Some p)
    obtain i e where "p = (i, e)" by (cases p)
    with Some \<open>v = Some s\<close> show ?thesis by (simp add: extractEmailAddress_Some)
  qed
qed

lemma extract_normalized:
  assumes "normalized_address a"
  shows "extractEmailAddress U (Some a) = Some a"
proof -
  from assms have "regexp_exec EMAIL_REGEX a = Some (0, length a)"
    unfolding normalized_address_def by (intro email_full) simp
  from extractEmailAddress_Some [OF this] assms show ?thesis
    by (simp add: slice_whole normalized_address_def)
qed

lemma extracted_is_normalized:
  assumes "extractEmailAddress U v = Some r"
  shows "normalized_address r \<and> r \<noteq> []"
proof -
  from assms obtain s i e where v: "v = Some s" and x: "regexp_exec EMAIL_REGEX s = Some (i, e)"
    and r: "r = map ascii_lower (slice s i e)"
    unfolding extractEmailAddress_cases by (auto split: option.splits)
  from regexp_exec_Some [OF x] have "matches EMAIL_REGEX s i e" using rmatch_sound by blast
  then obtain k1 k2 k3 where sh: "address_shape s i k1 k2 k3" and e: "e = i + k1 + k2 + k3 + 2"
    unfolding matches_email_iff by blast
  from shape_lower_slice [OF sh] have sh': "address_shape r 0 k1 k2 k3" unfolding r e .
  from sh have "e \<le> length s" unfolding address_shape_def e by simp
  then have len: "length r = k1 + k2 + k3 + 2" unfolding r using e by (simp add: length_slice)
  from sh' len have "matches EMAIL_REGEX r 0 (length r)" unfolding matches_email_iff by auto
  moreover have "map ascii_lower r = r" unfolding r by (rule lower_twice)
  moreover have "r \<noteq> []" using len by auto
  ultimately show ?thesis unfolding normalized_address_def by simp
qed

lemma extract_idem:
  "extractEmailAddress U (extractEmailAddress U v) = extractEmailAddress U v"
proof (cases "extractEmailAddress U v")
  case None
  then show ?thesis by (simp add: extractEmailAddress_def truthy_def)
next
  case (Some r)
  from extracted_is_normalized [OF this] have "extractEmailAddress U (Some r) = Some r"
    using extract_normalized by blast
  with Some show ?thesis by simp
qed

text \<open>The definitions that evaluate the extractors on a concrete input.\<close>

lemmas eval_defs = extractEmailAddress_def truthy_def string_match_def regexp_exec_def EMAIL_REGEX_def
  CODE_REGEX_def extractCode_def js_def icase_def local_class_def domain_class_def toLowerCase_def
  ascii_lower_def is_digit_def is_upper_def is_lower_def is_word_def is_word_at_def
  word_boundary_def cap_def slice_def eval_nat_numeral

lemma matches_email_start: "matches EMAIL_REGEX s i e \<Longrightarrow> i \<le> length s"
  unfolding matches_email_iff address_shape_def by auto

text \<open>
  Claim C8. \<^verbatim>\<open>extractEmailAddress\<close> is idempotent. It returns nothing for a missing or
  empty input, and for a string it returns nothing exactly when no substring matches the
  address pattern. Otherwise it returns the first match lower-cased: the match starts at
  the least index where a match starts and is the longest match from there.
\<close>

theorem extractEmailAddress_first_match_idempotent:
  "extractEmailAddress U (extractEmailAddress U v) = extractEmailAddress U v \<and>
   extractEmailAddress U None = None \<and>
   extractEmailAddress U (Some []) = None \<and>
   (extractEmailAddress U (Some s) = None \<longleftrightarrow> (\<forall>i e. \<not> matches EMAIL_REGEX s i e)) \<and>
   (\<forall>r. extractEmailAddress U (Some s) = Some r \<longrightarrow>
      (\<exists>i e. matches EMAIL_REGEX s i e \<and>
         (\<forall>j < i. \<forall>e'. \<not> matches EMAIL_REGEX s j e') \<and>
         (\<forall>e'. matches EMAIL_REGEX s i e' \<longrightarrow> e' \<le> e) \<and>
         r = toLowerCase U (slice s i e) \<and>
         r = map ascii_lower (slice s i e)))"
proof (intro conjI allI impI)
  show "extractEmailAddress U (extractEmailAddress U v) = extractEmailAddress U v"
    by (rule extract_idem)
  show "extractEmailAddress U None = None" "extractEmailAddress U (Some []) = None"
    by (simp_all add: extractEmailAddress_def truthy_def)
  show "extractEmailAddress U (Some s) = None \<longleftrightarrow> (\<forall>i e. \<not> matches EMAIL_REGEX s i e)"
  proof
    assume "extractEmailAddress U (Some s) = None"
    then have "regexp_exec EMAIL_REGEX s = None"
      unfolding extractEmailAddress_cases by (auto split: option.splits)
    then have n: "\<forall>i \<le> length s. rmatch EMAIL_REGEX s i = None" unfolding regexp_exec_None .
    show "\<forall>i e. \<not> matches EMAIL_REGEX s i e"
    proof (intro allI notI)
      fix i e assume m: "matches EMAIL_REGEX s i e"
      then have "i \<le> length s" by (rule matches_email_start)
      with n have "rmatch EMAIL_REGEX s i = None" by blast
      with rmatch_complete [OF m] show False by contradiction
    qed
  next
    assume "\<forall>i e. \<not> matches EMAIL_REGEX s i e"
    then have "\<forall>i \<le> length s. rmatch EMAIL_REGEX s i = None"
      unfolding rmatch_None_iff by blast
    then have "regexp_exec EMAIL_REGEX s = None" unfolding regexp_exec_None .
    then show "extractEmailAddress U (Some s) = None" by (rule extractEmailAddress_None)
  qed
next
  fix r assume "extractEmailAddress U (Some s) = Some r"
  then obtain i e where x: "regexp_exec EMAIL_REGEX s = Some (i, e)"
    and r: "r = map ascii_lower (slice s i e)"
    unfolding extractEmailAddress_cases by (auto split: option.splits)
  from regexp_exec_Some [OF x] have rm: "rmatch EMAIL_REGEX s i = Some e"
    and first: "\<forall>j < i. rmatch EMAIL_REGEX s j = None" by blast+
  from rm have m: "matches EMAIL_REGEX s i e" by (rule rmatch_sound)
  have "\<forall>j < i. \<forall>e'. \<not> matches EMAIL_REGEX s j e'"
    using first unfolding rmatch_None_iff by blast
  moreover have "\<forall>e'. matches EMAIL_REGEX s i e' \<longrightarrow> e' \<le> e"
    using email_longest [OF rm] by blast
  moreover have "toLowerCase U (slice s i e) = map ascii_lower (slice s i e)"
    using matches_email_ascii [OF m] by (simp add: toLowerCase_def)
  ultimately show "\<exists>i e. matches EMAIL_REGEX s i e \<and>
         (\<forall>j < i. \<forall>e'. \<not> matches EMAIL_REGEX s j e') \<and>
         (\<forall>e'. matches EMAIL_REGEX s i e' \<longrightarrow> e' \<le> e) \<and>
         r = toLowerCase U (slice s i e) \<and>
         r = map ascii_lower (slice s i e)"
    using m r by metis
qed

theorem extractEmailAddress_first_match_idempotent_witness:
  "extractEmailAddress (\<lambda>s. s) (Some (js ''To: John@Example.COM, x@y.org'')) = Some (js ''john@example.com'') \<and>
   extractEmailAddress (\<lambda>s. s) (Some (js ''john@example.com'')) = Some (js ''john@example.com'') \<and>
   (\<exists>i e. matches EMAIL_REGEX (js ''To: John@Example.COM, x@y.org'') i e \<and>
      js ''john@example.com'' = toLowerCase (\<lambda>s. s) (slice (js ''To: John@Example.COM, x@y.org'') i e))"
proof -
  have a: "extractEmailAddress (\<lambda>s. s) (Some (js ''To: John@Example.COM, x@y.org''))
      = Some (js ''john@example.com'')"
    by (simp add: eval_defs)
  from extractEmailAddress_first_match_idempotent
    [of "\<lambda>s. s" "Some (js ''To: John@Example.COM, x@y.org'')" "js ''To: John@Example.COM, x@y.org''"]
  have i: "extractEmailAddress (\<lambda>s. s) (extractEmailAddress (\<lambda>s. s)
        (Some (js ''To: John@Example.COM, x@y.org'')))
      = extractEmailAddress (\<lambda>s. s) (Some (js ''To: John@Example.COM, x@y.org''))"
    and f: "\<forall>r. extractEmailAddress (\<lambda>s. s) (Some (js ''To: John@Example.COM, x@y.org'')) = Some r \<longrightarrow>
      (\<exists>i e. matches EMAIL_REGEX (js ''To: John@Example.COM, x@y.org'') i e \<and>
         (\<forall>j < i. \<forall>e'. \<not> matches EMAIL_REGEX (js ''To: John@Example.COM, x@y.org'') j e') \<and>
         (\<forall>e'. matches EMAIL_REGEX (js ''To: John@Example.COM, x@y.org'') i e' \<longrightarrow> e' \<le> e) \<and>
         r = toLowerCase (\<lambda>s. s) (slice (js ''To: John@Example.COM, x@y.org'') i e) \<and>
         r = map ascii_lower (slice (js ''To: John@Example.COM, x@y.org'') i e))"
    by blast+
  from f a have "\<exists>i e. matches EMAIL_REGEX (js ''To: John@Example.COM, x@y.org'') i e \<and>
      js ''john@example.com'' = toLowerCase (\<lambda>s. s) (slice (js ''To: John@Example.COM, x@y.org'') i e)"
    by blast
  with a i show ?thesis by simp
qed

section \<open>The code pattern\<close>

lemma matches_WordBI:
  "word_boundary s i \<Longrightarrow> matches r s i e \<Longrightarrow> matches (WordB # r) s i e"
  by simp

lemma matches_code_iff:
  "matches CODE_REGEX s i e \<longleftrightarrow> (\<exists>n. code_token s i n \<and> e = i + n)"
proof
  assume "matches CODE_REGEX s i e"
  then obtain k where k: "word_boundary s i" "k \<le> length s - i" "5 \<le> k" "k \<le> 6"
    "\<forall>j < k. is_digit (s ! (i + j))" "word_boundary s (i + k)" "e = i + k"
    by (auto simp: CODE_REGEX_def within_def)
  have "i \<le> length s"
  proof (rule ccontr)
    assume "\<not> i \<le> length s"
    with k(2,3) show False by simp
  qed
  with k have "code_token s i k" unfolding code_token_def by auto
  with k(7) show "\<exists>n. code_token s i n \<and> e = i + n" by blast
next
  assume "\<exists>n. code_token s i n \<and> e = i + n"
  then obtain n where n: "code_token s i n" "e = i + n" by blast
  then have "matches [WordB] s (i + n) e" unfolding code_token_def by simp
  then have "matches [Rep is_digit 5 (Some 6), WordB] s i e"
    by (rule matches_RepI [of n, rotated -1])
      (use n(1) in \<open>auto simp: code_token_def within_def\<close>)
  moreover have "word_boundary s i" using n(1) unfolding code_token_def by simp
  ultimately show "matches CODE_REGEX s i e"
    unfolding CODE_REGEX_def by (intro matches_WordBI)
qed

lemma code_token_is_run: "code_token s i n \<Longrightarrow> digit_run s i n"
proof -
  assume t: "code_token s i n"
  then have n: "5 \<le> n" "i + n \<le> length s" and d: "\<forall>j < n. is_digit (s ! (i + j))"
    and b1: "word_boundary s i" and b2: "word_boundary s (i + n)"
    unfolding code_token_def by auto
  from n have "0 < n" "n - 1 < n" by simp_all
  with d have "is_digit (s ! (i + 0))" "is_digit (s ! (i + (n - 1)))" by blast+
  moreover have "i + (n - 1) = i + n - 1" using n by simp
  ultimately have w: "is_word_at s i" "is_word_at s (i + n - 1)"
    using n by (simp_all add: is_word_at_def is_word_def)
  from b1 w(1) have "i = 0 \<or> \<not> is_word_at s (i - 1)" unfolding word_boundary_def by auto
  then have l: "i = 0 \<or> \<not> is_digit (s ! (i - 1))"
    using n by (auto simp: is_word_at_def is_word_def)
  from b2 w(2) n have "\<not> is_word_at s (i + n)" unfolding word_boundary_def by auto
  then have r: "i + n = length s \<or> \<not> is_digit (s ! (i + n))"
    using n by (auto simp: is_word_at_def is_word_def)
  from n d l r show "digit_run s i n" unfolding digit_run_def by auto
qed

lemma extractCode_None_iff: "extractCode text = None \<longleftrightarrow> (\<forall>i n. \<not> code_token text i n)"
proof
  assume "extractCode text = None"
  then have "regexp_exec CODE_REGEX text = None"
    by (auto simp: extractCode_def split: option.splits)
  then have n: "\<forall>i \<le> length text. rmatch CODE_REGEX text i = None"
    unfolding regexp_exec_None .
  show "\<forall>i n. \<not> code_token text i n"
  proof (intro allI notI)
    fix i n assume t: "code_token text i n"
    then have "i \<le> length text" unfolding code_token_def by simp
    with n have "rmatch CODE_REGEX text i = None" by blast
    moreover from t have "matches CODE_REGEX text i (i + n)" unfolding matches_code_iff by blast
    ultimately show False using rmatch_complete by blast
  qed
next
  assume "\<forall>i n. \<not> code_token text i n"
  then have "\<forall>i e. \<not> matches CODE_REGEX text i e" unfolding matches_code_iff by blast
  then have "\<forall>i \<le> length text. rmatch CODE_REGEX text i = None"
    unfolding rmatch_None_iff by blast
  then have "regexp_exec CODE_REGEX text = None" unfolding regexp_exec_None .
  then show "extractCode text = None" by (simp add: extractCode_def)
qed

lemma extractCode_SomeD:
  assumes "extractCode text = Some code"
  shows "\<exists>i. code_token text i (length code) \<and> code = slice text i (i + length code) \<and>
           (\<forall>j < i. \<forall>n. \<not> code_token text j n)"
proof -
  from assms obtain i e where x: "regexp_exec CODE_REGEX text = Some (i, e)"
    and c: "code = slice text i e"
    by (auto simp: extractCode_def split: option.splits)
  from regexp_exec_Some [OF x] have rm: "rmatch CODE_REGEX text i = Some e"
    and first: "\<forall>j < i. rmatch CODE_REGEX text j = None" by blast+
  from rmatch_sound [OF rm] obtain n where n: "code_token text i n" "e = i + n"
    unfolding matches_code_iff by blast
  then have "length code = n" unfolding c code_token_def by (auto simp: slice_def)
  moreover have "\<forall>j < i. \<forall>n. \<not> code_token text j n"
    using first unfolding rmatch_None_iff matches_code_iff by blast
  ultimately show ?thesis using n c by auto
qed

lemma extractCode_length:
  "extractCode text = Some code \<Longrightarrow> length code = 5 \<or> length code = 6"
  by (drule extractCode_SomeD) (auto simp: code_token_def)

text \<open>
  Claim C4. \<^verbatim>\<open>extractCode\<close> returns nothing exactly when the text has no code token.
  Otherwise it returns, verbatim, the token at the least index where a token starts. A
  token is a whole digit run, so a text whose digit runs all have fewer than 5 or more than
  6 digits gives nothing: a window of 5 or 6 digits inside a longer run is not a match.
\<close>

theorem extractCode_first_bounded_token:
  "(extractCode text = None \<longleftrightarrow> (\<forall>i n. \<not> code_token text i n)) \<and>
   (\<forall>code. extractCode text = Some code \<longrightarrow>
      (\<exists>i. code_token text i (length code) \<and> code = slice text i (i + length code) \<and>
           (\<forall>j < i. \<forall>n. \<not> code_token text j n))) \<and>
   (\<forall>i n. code_token text i n \<longrightarrow> digit_run text i n) \<and>
   ((\<forall>i n. digit_run text i n \<longrightarrow> n < 5 \<or> 6 < n) \<longrightarrow> extractCode text = None)"
proof -
  have none: "extractCode text = None \<longleftrightarrow> (\<forall>i n. \<not> code_token text i n)"
  proof
    assume "extractCode text = None"
    then have "regexp_exec CODE_REGEX text = None"
      by (auto simp: extractCode_def split: option.splits)
    then have n: "\<forall>i \<le> length text. rmatch CODE_REGEX text i = None"
      unfolding regexp_exec_None .
    show "\<forall>i n. \<not> code_token text i n"
    proof (intro allI notI)
      fix i n assume t: "code_token text i n"
      then have "i \<le> length text" unfolding code_token_def by simp
      with n have "rmatch CODE_REGEX text i = None" by blast
      moreover from t have "matches CODE_REGEX text i (i + n)" unfolding matches_code_iff by blast
      ultimately show False using rmatch_complete by blast
    qed
  next
    assume "\<forall>i n. \<not> code_token text i n"
    then have "\<forall>i e. \<not> matches CODE_REGEX text i e" unfolding matches_code_iff by blast
    then have "\<forall>i \<le> length text. rmatch CODE_REGEX text i = None"
      unfolding rmatch_None_iff by blast
    then have "regexp_exec CODE_REGEX text = None" unfolding regexp_exec_None .
    then show "extractCode text = None" by (simp add: extractCode_def)
  qed
  have some: "\<exists>i. code_token text i (length code) \<and> code = slice text i (i + length code) \<and>
           (\<forall>j < i. \<forall>n. \<not> code_token text j n)" if "extractCode text = Some code" for code
  proof -
    from that obtain i e where x: "regexp_exec CODE_REGEX text = Some (i, e)"
      and c: "code = slice text i e"
      by (auto simp: extractCode_def split: option.splits)
    from regexp_exec_Some [OF x] have rm: "rmatch CODE_REGEX text i = Some e"
      and first: "\<forall>j < i. rmatch CODE_REGEX text j = None" by blast+
    from rmatch_sound [OF rm] obtain n where n: "code_token text i n" "e = i + n"
      unfolding matches_code_iff by blast
    then have "length code = n" unfolding c code_token_def by (auto simp: slice_def)
    moreover have "\<forall>j < i. \<forall>n. \<not> code_token text j n"
      using first unfolding rmatch_None_iff matches_code_iff by blast
    ultimately show ?thesis using n c by auto
  qed
  have run: "\<forall>i n. code_token text i n \<longrightarrow> digit_run text i n"
    using code_token_is_run by blast
  have "extractCode text = None" if "\<forall>i n. digit_run text i n \<longrightarrow> n < 5 \<or> 6 < n"
  proof -
    have "\<not> code_token text i n" for i n
    proof
      assume t: "code_token text i n"
      then have "digit_run text i n" by (rule code_token_is_run)
      with that have "n < 5 \<or> 6 < n" by blast
      with t show False unfolding code_token_def by auto
    qed
    then show ?thesis unfolding none by blast
  qed
  with none some run show ?thesis by blast
qed

theorem extractCode_first_bounded_token_witness:
  "extractCode (js ''pin 1234567 or 482913, 55555'') = Some (js ''482913'') \<and>
   (\<exists>i. code_token (js ''pin 1234567 or 482913, 55555'') i 6) \<and>
   extractCode (js ''order #12345678 or 1234'') = None"
proof -
  have a: "extractCode (js ''pin 1234567 or 482913, 55555'') = Some (js ''482913'')"
    by (simp add: eval_defs)
  have b: "extractCode (js ''order #12345678 or 1234'') = None"
    by (simp add: eval_defs)
  from extractCode_first_bounded_token [of "js ''pin 1234567 or 482913, 55555''"] a
  have "\<exists>i. code_token (js ''pin 1234567 or 482913, 55555'') i (length (js ''482913''))"
    by blast
  moreover have "length (js ''482913'') = 6" by (simp add: js_def)
  ultimately have c: "\<exists>i. code_token (js ''pin 1234567 or 482913, 55555'') i 6"
    by (simp only:)
  from extractCode_first_bounded_token [of "js ''order #12345678 or 1234''"] b
  have "\<forall>i n. \<not> code_token (js ''order #12345678 or 1234'') i n" by blast
  with a b c show ?thesis by simp
qed

section \<open>The recipients\<close>

lemma first_occurrences_Nil: "first_occurrences [] = []"
  by (simp add: first_occurrences_def)

lemma first_occurrences_snoc:
  "first_occurrences (xs @ [x]) = first_occurrences xs @ (if x \<in> set xs then [] else [x])"
proof -
  have f: "filter (\<lambda>i. (xs @ [x]) ! i \<notin> set (take i (xs @ [x]))) [0..<length xs]
      = filter (\<lambda>i. xs ! i \<notin> set (take i xs)) [0..<length xs]"
    by (rule filter_cong) (auto simp: nth_append)
  have m: "map (\<lambda>i. (xs @ [x]) ! i) (filter (\<lambda>i. xs ! i \<notin> set (take i xs)) [0..<length xs])
      = map (\<lambda>i. xs ! i) (filter (\<lambda>i. xs ! i \<notin> set (take i xs)) [0..<length xs])"
    by (rule map_cong) (auto simp: nth_append)
  show ?thesis
    unfolding first_occurrences_def using f m by simp
qed

lemma set_first_occurrences: "set (first_occurrences xs) = set xs"
  by (induction xs rule: rev_induct)
    (auto simp: first_occurrences_Nil first_occurrences_snoc)

lemma distinct_first_occurrences: "distinct (first_occurrences xs)"
  by (induction xs rule: rev_induct)
    (auto simp: first_occurrences_Nil first_occurrences_snoc set_first_occurrences)

lemma entry_default:
  "extractEmailAddress U (Some (case entry of None \<Rightarrow> [] | Some e \<Rightarrow> e)) = extractEmailAddress U entry"
  by (cases entry) (simp_all add: extractEmailAddress_def truthy_def)

lemma addresses_Cons:
  "addresses U (entry # es) =
     (case extractEmailAddress U entry of None \<Rightarrow> addresses U es | Some a \<Rightarrow> a # addresses U es)"
  by (simp add: addresses_def List.map_filter_simps split: option.splits)

lemma getRecipients_loop_eq:
  "getRecipients_loop U list (first_occurrences pre) = first_occurrences (pre @ addresses U list)"
proof (induction list arbitrary: pre)
  case Nil
  then show ?case by (simp add: addresses_def List.map_filter_simps)
next
  case (Cons entry list)
  show ?case
  proof (cases "extractEmailAddress U entry")
    case None
    then show ?thesis
      using Cons.IH [of pre] by (simp add: entry_default addresses_Cons truthy_def)
  next
    case (Some a)
    from extracted_is_normalized [OF Some] have ne: "a \<noteq> []" by simp
    have snoc: "first_occurrences (pre @ [a])
        = (if a \<in> set pre then first_occurrences pre else first_occurrences pre @ [a])"
      by (simp add: first_occurrences_snoc)
    show ?thesis
    proof (cases "a \<in> set pre")
      case True
      with Cons.IH [of "pre @ [a]"] Some ne snoc show ?thesis
        by (simp add: entry_default addresses_Cons truthy_def set_first_occurrences)
    next
      case False
      with Cons.IH [of "pre @ [a]"] Some ne snoc show ?thesis
        by (simp add: entry_default addresses_Cons truthy_def set_first_occurrences)
    qed
  qed
qed

lemma getRecipients_eq:
  "getRecipients U m = first_occurrences (addresses U (to_entries (to m)))"
  using getRecipients_loop_eq [of U "to_entries (to m)" "[]"]
  by (simp add: getRecipients_def to_entries_def first_occurrences_Nil split: to_field.splits)

lemma addresses_filter_truthy: "addresses U (filter truthy es) = addresses U es"
proof (induction es)
  case Nil
  then show ?case by simp
next
  case (Cons entry es)
  show ?case
  proof (cases "truthy entry")
    case True
    with Cons show ?thesis by (simp add: addresses_Cons split: option.splits)
  next
    case False
    then have "extractEmailAddress U entry = None" by (simp add: extractEmailAddress_def)
    with False Cons show ?thesis by (simp add: addresses_Cons split: option.splits)
  qed
qed

lemma addresses_normalized: "a \<in> set (addresses U es) \<Longrightarrow> normalized_address a"
proof -
  assume "a \<in> set (addresses U es)"
  then obtain entry where "extractEmailAddress U entry = Some a"
    by (auto simp: addresses_def map_filter_def)
  from extracted_is_normalized [OF this] show ?thesis by simp
qed

text \<open>
  Claim C6. \<^verbatim>\<open>getRecipients\<close> returns the addresses of the entries of \<^verbatim>\<open>to\<close> (one
  string, or the elements of a list), each normalised by \<^verbatim>\<open>extractEmailAddress\<close>, keeping
  the first occurrence of every address in the order of the entries: the result has no
  duplicates and holds exactly the addresses of the entries. Empty and missing entries
  contribute nothing.
\<close>

theorem getRecipients_unique_in_first_occurrence_order:
  "getRecipients U m = first_occurrences (addresses U (to_entries (to m))) \<and>
   distinct (getRecipients U m) \<and>
   set (getRecipients U m) = set (addresses U (to_entries (to m))) \<and>
   (\<forall>r \<in> set (getRecipients U m). normalized_address r \<and> extractEmailAddress U (Some r) = Some r) \<and>
   addresses U (to_entries (to m)) = addresses U (filter truthy (to_entries (to m)))"
proof -
  have "normalized_address r \<and> extractEmailAddress U (Some r) = Some r"
    if "r \<in> set (getRecipients U m)" for r
  proof -
    from that have "normalized_address r"
      unfolding getRecipients_eq set_first_occurrences by (rule addresses_normalized)
    then show ?thesis using extract_normalized by blast
  qed
  then show ?thesis
    by (simp add: getRecipients_eq set_first_occurrences distinct_first_occurrences
        addresses_filter_truthy)
qed

theorem getRecipients_unique_in_first_occurrence_order_witness:
  "getRecipients (\<lambda>s. s)
     \<lparr>to = ToArray [Some (js ''a@x.com''), None, Some (js ''A@X.COM''), Some [], Some (js ''b@y.com'')],
      headers = None, raw = None\<rparr> = [js ''a@x.com'', js ''b@y.com''] \<and>
   normalized_address (js ''b@y.com'') \<and>
   getRecipients (\<lambda>s. s) \<lparr>to = ToString (js ''B@y.com''), headers = None, raw = None\<rparr> = [js ''b@y.com'']"
proof -
  let ?m = "\<lparr>to = ToArray [Some (js ''a@x.com''), None, Some (js ''A@X.COM''), Some [], Some (js ''b@y.com'')],
      headers = None, raw = None\<rparr>"
  have a: "getRecipients (\<lambda>s. s) ?m = [js ''a@x.com'', js ''b@y.com'']"
    by (simp add: getRecipients_def eval_defs)
  have b: "getRecipients (\<lambda>s. s) \<lparr>to = ToString (js ''B@y.com''), headers = None, raw = None\<rparr>
      = [js ''b@y.com'']"
    by (simp add: getRecipients_def eval_defs)
  from getRecipients_unique_in_first_occurrence_order [of "\<lambda>s. s" ?m]
  have "\<forall>r \<in> set (getRecipients (\<lambda>s. s) ?m). normalized_address r" by blast
  with a have "normalized_address (js ''b@y.com'')" by simp
  with a b show ?thesis by simp
qed

section \<open>The lookup handler\<close>

lemma try_down_const:
  "try_down (\<lambda>k. Some (f k)) lo n = (if lo \<le> n then Some (f n) else None)"
  by (cases n) auto

lemma rmatch_slashes:
  "rmatch LEADING_SLASHES s i =
     (if i = 0 \<and> 1 \<le> length (takeWhile (\<lambda>c. c = 0x2F) s)
      then Some (length (takeWhile (\<lambda>c. c = 0x2F) s)) else None)"
  by (simp add: LEADING_SLASHES_def try_down_const cap_def)

lemma strip_leading_slashes:
  "replace s LEADING_SLASHES [] = dropWhile (\<lambda>c. c = 0x2F) s"
proof (cases "1 \<le> length (takeWhile (\<lambda>c. c = 0x2F) s)")
  case True
  then have "rmatch LEADING_SLASHES s 0 = Some (length (takeWhile (\<lambda>c. c = 0x2F) s))"
    by (simp add: rmatch_slashes)
  then have "regexp_exec LEADING_SLASHES s = Some (0, length (takeWhile (\<lambda>c. c = 0x2F) s))"
    by (intro regexp_exec_first) simp_all
  then show ?thesis by (simp add: replace_def dropWhile_eq_drop)
next
  case False
  then have "\<forall>i \<le> length s. rmatch LEADING_SLASHES s i = None"
    by (simp add: rmatch_slashes)
  then have "regexp_exec LEADING_SLASHES s = None" unfolding regexp_exec_None .
  moreover from False have "takeWhile (\<lambda>c. c = 0x2F) s = []"
    by (cases "takeWhile (\<lambda>c. c = 0x2F) s") simp_all
  then have "dropWhile (\<lambda>c. c = 0x2F) s = s"
    by (metis takeWhile_dropWhile_id append_Nil)
  ultimately show ?thesis by (simp add: replace_def)
qed

lemma getAccessKey_credential:
  "getAccessKey U req = (case bearer_credential U req of None \<Rightarrow> [] | Some c \<Rightarrow> c)"
  by (simp add: getAccessKey_def bearer_credential_def toLowerCase_def startsWith_def js_def
      trim_def split: option.splits)

lemma authorized_iff:
  "authorized U req e \<longleftrightarrow> \<not> (\<not> truthy (ACCESS_KEY e) \<or> Some (getAccessKey U req) \<noteq> ACCESS_KEY e)"
  by (auto simp: authorized_def getAccessKey_credential truthy_def split: option.splits)

text \<open>The handler on a GET request, by cases.\<close>

lemma fetch_GET:
  assumes "request_method req = js ''GET''"
  shows "fetch U now req e =
     (if \<not> authorized U req e then Inr unauthorized_response
      else if routing_token req = []
        then Inr (json (DomainsPayload (parseDomains U (DOMAINS e))) 200)
      else case decodeURIComponent (routing_token req) of
          Inl err \<Rightarrow> Inl err
        | Inr decoded \<Rightarrow>
            (case extractEmailAddress U (Some decoded) of
               None \<Rightarrow> Inr (json (ErrorPayload (js ''invalid email'')) 400)
             | Some address \<Rightarrow>
                 (case kv_get now (ANYMAIL_CODES e) (buildKey address) of
                    None \<Rightarrow> Inr (json (CodePayload []) 404)
                  | Some code \<Rightarrow>
                      (if code = [] then Inr (json (CodePayload []) 404)
                       else Inr (json (CodePayload code) 200)))))"
proof (cases "authorized U req e")
  case False
  then show ?thesis
    using assms unfolding authorized_iff
    by (simp add: fetch_def unauthorized_response_def Let_def)
next
  case True
  then have a: "\<not> (\<not> truthy (ACCESS_KEY e) \<or> Some (getAccessKey U req) \<noteq> ACCESS_KEY e)"
    unfolding authorized_iff .
  have path: "replace (pathname req) LEADING_SLASHES [] = routing_token req"
    by (simp add: strip_leading_slashes routing_token_def)
  show ?thesis
  proof (cases "routing_token req = []")
    case True
    with assms a path \<open>authorized U req e\<close> show ?thesis by (simp add: fetch_def Let_def)
  next
    case ne: False
    show ?thesis
    proof (cases "decodeURIComponent (routing_token req)")
      case (Inl err)
      with assms a path ne \<open>authorized U req e\<close> show ?thesis by (simp add: fetch_def Let_def)
    next
      case (Inr decoded)
      show ?thesis
      proof (cases "extractEmailAddress U (Some decoded)")
        case None
        with assms a path ne Inr \<open>authorized U req e\<close> show ?thesis
          by (simp add: fetch_def Let_def truthy_def)
      next
        case (Some address)
        from extracted_is_normalized [OF Some] have ad: "address \<noteq> []" by simp
        show ?thesis
        proof (cases "kv_get now (ANYMAIL_CODES e) (buildKey address)")
          case None
          with assms a path ne Inr Some ad \<open>authorized U req e\<close> show ?thesis
            by (simp add: fetch_def Let_def truthy_def)
        next
          case (Some code)
          with assms a path ne Inr \<open>extractEmailAddress U (Some decoded) = Some address\<close> ad
            \<open>authorized U req e\<close> show ?thesis
            by (simp add: fetch_def Let_def truthy_def)
        qed
      qed
    qed
  qed
qed

lemmas auth_eval = authorized_def bearer_credential_def toLowerCase_def startsWith_def trim_def
  is_space_def js_def ascii_lower_def is_upper_def truthy_def

lemma status_json: "status (json d st) = st"
  by (simp add: json_def)

text \<open>
  Claim C1. On a GET request the lookup handler answers 401 "unauthorized" exactly when it
  is not the case that the configured access key is present, not empty and equal to the
  bearer credential of the request. In particular it answers 401 to every GET request
  when the configured access key is missing or the empty string.
\<close>

theorem fetch_unauthorized_unless_bearer_matches:
  assumes "request_method req = js ''GET''"
  shows "(fetch U now req e = Inr unauthorized_response \<longleftrightarrow>
            \<not> (truthy (ACCESS_KEY e) \<and> bearer_credential U req = ACCESS_KEY e)) \<and>
         ((\<exists>r. fetch U now req e = Inr r \<and> status r = 401) \<longleftrightarrow>
            \<not> (truthy (ACCESS_KEY e) \<and> bearer_credential U req = ACCESS_KEY e)) \<and>
         (ACCESS_KEY e = None \<or> ACCESS_KEY e = Some [] \<longrightarrow>
            fetch U now req e = Inr unauthorized_response)"
proof -
  have u: "status unauthorized_response = 401"
    by (simp add: unauthorized_response_def status_json)
  have no: "fetch U now req e = Inr unauthorized_response" if "\<not> authorized U req e"
    using that fetch_GET [OF assms, of U now e] by simp
  have yes: "fetch U now req e \<noteq> Inr r" if "authorized U req e" "status r = 401" for r
  proof
    assume "fetch U now req e = Inr r"
    with that(1) fetch_GET [OF assms, of U now e] have "status r \<in> {200, 400, 404}"
      by (auto simp: status_json split: if_splits sum.splits option.splits)
    with that(2) show False by simp
  qed
  have 1: "fetch U now req e = Inr unauthorized_response \<longleftrightarrow> \<not> authorized U req e"
    using no yes [of unauthorized_response] u by blast
  have 2: "(\<exists>r. fetch U now req e = Inr r \<and> status r = 401) \<longleftrightarrow> \<not> authorized U req e"
    using no yes u by blast
  have 3: "fetch U now req e = Inr unauthorized_response"
    if "ACCESS_KEY e = None \<or> ACCESS_KEY e = Some []"
  proof -
    from that have "\<not> authorized U req e" by (auto simp: authorized_def truthy_def)
    then show ?thesis by (rule no)
  qed
  from 1 2 3 show ?thesis unfolding authorized_def by blast
qed

theorem fetch_unauthorized_unless_bearer_matches_witness:
  "fetch (\<lambda>s. s) 0
     \<lparr>request_method = js ''GET'', pathname = js ''/'',
      request_headers = [js ''authorization'' \<mapsto> js ''Bearer wrong'']\<rparr>
     \<lparr>ACCESS_KEY = Some (js ''k''), CODE_TTL_SECONDS = None, DOMAINS = None,
      ANYMAIL_CODES = Map.empty\<rparr> = Inr unauthorized_response \<and>
   fetch (\<lambda>s. s) 0
     \<lparr>request_method = js ''GET'', pathname = js ''/'',
      request_headers = [js ''authorization'' \<mapsto> js ''bEaReR  k '']\<rparr>
     \<lparr>ACCESS_KEY = Some (js ''k''), CODE_TTL_SECONDS = None, DOMAINS = None,
      ANYMAIL_CODES = Map.empty\<rparr> \<noteq> Inr unauthorized_response \<and>
   fetch (\<lambda>s. s) 0
     \<lparr>request_method = js ''GET'', pathname = js ''/'',
      request_headers = [js ''authorization'' \<mapsto> js ''Bearer '']\<rparr>
     \<lparr>ACCESS_KEY = Some [], CODE_TTL_SECONDS = None, DOMAINS = None,
      ANYMAIL_CODES = Map.empty\<rparr> = Inr unauthorized_response"
proof -
  let ?e = "\<lparr>ACCESS_KEY = Some (js ''k''), CODE_TTL_SECONDS = None, DOMAINS = None,
      ANYMAIL_CODES = Map.empty\<rparr>"
  let ?ez = "\<lparr>ACCESS_KEY = Some [], CODE_TTL_SECONDS = None, DOMAINS = None,
      ANYMAIL_CODES = Map.empty\<rparr>"
  let ?ra = "\<lparr>request_method = js ''GET'', pathname = js ''/'',
      request_headers = [js ''authorization'' \<mapsto> js ''Bearer wrong'']\<rparr>"
  let ?rb = "\<lparr>request_method = js ''GET'', pathname = js ''/'',
      request_headers = [js ''authorization'' \<mapsto> js ''bEaReR  k '']\<rparr>"
  let ?rc = "\<lparr>request_method = js ''GET'', pathname = js ''/'',
      request_headers = [js ''authorization'' \<mapsto> js ''Bearer '']\<rparr>"
  have g: "request_method ?ra = js ''GET''" "request_method ?rb = js ''GET''"
    "request_method ?rc = js ''GET''" by simp_all
  have a1: "\<not> (truthy (ACCESS_KEY ?e) \<and> bearer_credential (\<lambda>s. s) ?ra = ACCESS_KEY ?e)"
    by (simp add: auth_eval)
  have a2: "truthy (ACCESS_KEY ?e) \<and> bearer_credential (\<lambda>s. s) ?rb = ACCESS_KEY ?e"
    by (simp add: auth_eval)
  have a3: "ACCESS_KEY ?ez = None \<or> ACCESS_KEY ?ez = Some []" by simp
  from fetch_unauthorized_unless_bearer_matches [OF g(1), of "\<lambda>s. s" 0 ?e] a1
  have 1: "fetch (\<lambda>s. s) 0 ?ra ?e = Inr unauthorized_response" by blast
  from fetch_unauthorized_unless_bearer_matches [OF g(2), of "\<lambda>s. s" 0 ?e] a2
  have 2: "fetch (\<lambda>s. s) 0 ?rb ?e \<noteq> Inr unauthorized_response" by blast
  from fetch_unauthorized_unless_bearer_matches [OF g(3), of "\<lambda>s. s" 0 ?ez] a3
  have 3: "fetch (\<lambda>s. s) 0 ?rc ?ez = Inr unauthorized_response" by blast
  from 1 2 3 show ?thesis by blast
qed

text \<open>
  Claim C10. On an authorized GET request whose routing token decodes to a string with the
  address \<open>address\<close>, when the store holds the empty string under \<open>buildKey address\<close>
  the handler answers 404 with the empty code, and that is its answer too when the record
  is removed from the store.
\<close>

theorem fetch_stored_empty_code_is_not_found:
  assumes "request_method req = js ''GET''"
    and "truthy (ACCESS_KEY e) \<and> bearer_credential U req = ACCESS_KEY e"
    and "routing_token req \<noteq> []"
    and "decodeURIComponent (routing_token req) = Inr decoded"
    and "extractEmailAddress U (Some decoded) = Some address"
    and "ANYMAIL_CODES e (buildKey address) = Some ([], expires)"
  shows "fetch U now req e = Inr (json (CodePayload []) 404) \<and>
         fetch U now req (e\<lparr>ANYMAIL_CODES := (ANYMAIL_CODES e)(buildKey address := None)\<rparr>)
           = fetch U now req e"
proof -
  let ?e' = "e\<lparr>ANYMAIL_CODES := (ANYMAIL_CODES e)(buildKey address := None)\<rparr>"
  from assms(2) have a: "authorized U req e" "authorized U req ?e'"
    by (simp_all add: authorized_def)
  have k: "kv_get now (ANYMAIL_CODES e) (buildKey address) = Some []
      \<or> kv_get now (ANYMAIL_CODES e) (buildKey address) = None"
    using assms(6) by (simp add: kv_get_def)
  have k': "kv_get now (ANYMAIL_CODES ?e') (buildKey address) = None"
    by (simp add: kv_get_def)
  from k have 1: "fetch U now req e = Inr (json (CodePayload []) 404)"
    using fetch_GET [OF assms(1), of U now e] a(1) assms(3,4,5) by auto
  have 2: "fetch U now req ?e' = Inr (json (CodePayload []) 404)"
    using fetch_GET [OF assms(1), of U now ?e'] a(2) assms(3,4,5) k' by simp
  from 1 2 show ?thesis by simp
qed

lemma decode_plain: "0x25 \<notin> set s \<Longrightarrow> decodeURIComponent s = Inr s"
  by (induction s) auto

theorem fetch_stored_empty_code_is_not_found_witness:
  "fetch (\<lambda>s. s) 5
     \<lparr>request_method = js ''GET'', pathname = js ''/x@y.com'',
      request_headers = [js ''authorization'' \<mapsto> js ''Bearer k'']\<rparr>
     \<lparr>ACCESS_KEY = Some (js ''k''), CODE_TTL_SECONDS = None, DOMAINS = None,
      ANYMAIL_CODES = [buildKey (js ''x@y.com'') \<mapsto> ([], 10)]\<rparr>
   = Inr (json (CodePayload []) 404)"
proof -
  let ?e = "\<lparr>ACCESS_KEY = Some (js ''k''), CODE_TTL_SECONDS = None, DOMAINS = None,
      ANYMAIL_CODES = [buildKey (js ''x@y.com'') \<mapsto> ([], 10)]\<rparr>"
  let ?r = "\<lparr>request_method = js ''GET'', pathname = js ''/x@y.com'',
      request_headers = [js ''authorization'' \<mapsto> js ''Bearer k'']\<rparr>"
  have g: "request_method ?r = js ''GET''" by simp
  have a: "truthy (ACCESS_KEY ?e) \<and> bearer_credential (\<lambda>s. s) ?r = ACCESS_KEY ?e"
    by (simp add: auth_eval)
  have t: "routing_token ?r = js ''x@y.com''" by (simp add: routing_token_def js_def)
  then have ne: "routing_token ?r \<noteq> []" by (simp add: js_def)
  have d: "decodeURIComponent (routing_token ?r) = Inr (js ''x@y.com'')"
    unfolding t by (rule decode_plain) (simp add: js_def)
  have x: "extractEmailAddress (\<lambda>s. s) (Some (js ''x@y.com'')) = Some (js ''x@y.com'')"
    by (simp add: eval_defs)
  have s: "ANYMAIL_CODES ?e (buildKey (js ''x@y.com'')) = Some ([], 10)" by simp
  from fetch_stored_empty_code_is_not_found [OF g a ne d x s, of 5] show ?thesis by blast
qed

text \<open>
  Claim C3, at a routing token that is a malformed percent-encoding: on the authorized
  request \<^verbatim>\<open>GET /%zz\<close> the handler answers nothing, \<^verbatim>\<open>decodeURIComponent\<close> throws
  \<^verbatim>\<open>URIError\<close> and nothing catches it.
\<close>

theorem fetch_malformed_escape_throws:
  "fetch (\<lambda>s. s) 0
     \<lparr>request_method = js ''GET'', pathname = js ''/%zz'',
      request_headers = [js ''authorization'' \<mapsto> js ''Bearer k'']\<rparr>
     \<lparr>ACCESS_KEY = Some (js ''k''), CODE_TTL_SECONDS = None, DOMAINS = None,
      ANYMAIL_CODES = Map.empty\<rparr>
   = Inl URIError"
proof -
  let ?e = "\<lparr>ACCESS_KEY = Some (js ''k''), CODE_TTL_SECONDS = None, DOMAINS = None,
      ANYMAIL_CODES = Map.empty\<rparr>"
  let ?r = "\<lparr>request_method = js ''GET'', pathname = js ''/%zz'',
      request_headers = [js ''authorization'' \<mapsto> js ''Bearer k'']\<rparr>"
  have g: "request_method ?r = js ''GET''" by simp
  have a: "authorized (\<lambda>s. s) ?r ?e" by (simp add: auth_eval)
  have t: "routing_token ?r = js ''%zz''" by (simp add: routing_token_def js_def)
  have d: "decodeURIComponent (js ''%zz'') = Inl URIError"
    by (simp add: js_def hexval_def is_digit_def)
  from fetch_GET [OF g, of "\<lambda>s. s" 0 ?e] a t d show ?thesis by (simp add: js_def)
qed

theorem fetch_malformed_escape_throws_witness:
  "fetch (\<lambda>s. s) 0
     \<lparr>request_method = js ''GET'', pathname = js ''/%zz'',
      request_headers = [js ''authorization'' \<mapsto> js ''Bearer k'']\<rparr>
     \<lparr>ACCESS_KEY = Some (js ''k''), CODE_TTL_SECONDS = None, DOMAINS = None,
      ANYMAIL_CODES = Map.empty\<rparr>
   \<noteq> Inr (json (ErrorPayload (js ''invalid email'')) 400)"
  using fetch_malformed_escape_throws by simp

section \<open>The inbound handler and the round trip\<close>

lemma readRawText_text: "readRawText m = Inr (message_text m)"
  by (simp add: readRawText_def message_text_def try_catch_def Response_text_def
      split: option.splits stream.splits sum.splits)

lemma buildKey_inject: "buildKey a = buildKey b \<longleftrightarrow> a = b"
  by (simp add: buildKey_def)

lemma distinct_getRecipients: "distinct (getRecipients U m)"
  by (simp add: getRecipients_eq distinct_first_occurrences)

lemma email_eq:
  "email U m e =
     Inr (if getRecipients U m = [] then []
          else case extractCode (scanned_text m) of
                 None \<Rightarrow> []
               | Some code \<Rightarrow>
                   map (\<lambda>recipient. \<lparr>key = buildKey recipient, val = code,
                          expirationTtl = normalizeTtlSeconds (CODE_TTL_SECONDS e)\<rparr>)
                     (getRecipients U m))"
proof (cases "getRecipients U m = []")
  case True
  then show ?thesis by (simp add: email_def)
next
  case False
  show ?thesis
  proof (cases "extractCode (scanned_text m)")
    case None
    with False show ?thesis
      by (simp add: email_def readRawText_text scanned_text_def message_subject_def truthy_def
          Let_def)
  next
    case (Some code)
    from extractCode_length [OF Some] have "code \<noteq> []" by auto
    with False Some show ?thesis
      by (simp add: email_def readRawText_text scanned_text_def message_subject_def truthy_def
          Let_def)
  qed
qed

text \<open>
  Claim C7. The inbound handler never throws. When the message has no recipient, or the
  subject, a newline and the body text hold no code, it requests no store write.
  Otherwise it requests exactly one write per recipient, of the code under
  \<open>buildKey recipient\<close> with the effective TTL; the keys of the writes differ.
\<close>

theorem email_writes_one_record_per_recipient:
  "(\<exists>ws. email U m e = Inr ws) \<and>
   (getRecipients U m = [] \<or> extractCode (scanned_text m) = None \<longrightarrow> email U m e = Inr []) \<and>
   (\<forall>code. getRecipients U m \<noteq> [] \<and> extractCode (scanned_text m) = Some code \<longrightarrow>
      email U m e =
        Inr (map (\<lambda>recipient. \<lparr>key = buildKey recipient, val = code,
                    expirationTtl = normalizeTtlSeconds (CODE_TTL_SECONDS e)\<rparr>)
               (getRecipients U m))) \<and>
   (\<forall>ws. email U m e = Inr ws \<longrightarrow> distinct (map key ws))"
proof -
  have d: "distinct (map key ws)" if "email U m e = Inr ws" for ws
  proof -
    have "distinct (map buildKey (getRecipients U m))"
      using distinct_getRecipients by (simp add: distinct_map inj_on_def buildKey_inject)
    moreover have "map key ws = [] \<or> map key ws = map buildKey (getRecipients U m)"
      using that unfolding email_eq by (auto simp: comp_def split: if_splits option.splits)
    ultimately show ?thesis by auto
  qed
  show ?thesis
    using d by (auto simp: email_eq)
qed

lemmas ttl_eval = normalizeTtlSeconds_def parseInt_def round_to_double_def digits_value_def
  is_space_def is_digit_def DEFAULT_TTL_SECONDS_def js_def

theorem email_writes_one_record_per_recipient_witness:
  "email (\<lambda>s. s)
     \<lparr>to = ToString (js ''user@test.com''), headers = Some [js ''subject'' \<mapsto> js ''Code''],
      raw = Some (Stream (Inr (js ''Use 73920 to verify'')))\<rparr>
     \<lparr>ACCESS_KEY = Some (js ''k''), CODE_TTL_SECONDS = Some (js ''120''), DOMAINS = None,
      ANYMAIL_CODES = Map.empty\<rparr>
   = Inr [\<lparr>key = js ''code:user@test.com'', val = js ''73920'', expirationTtl = 120\<rparr>] \<and>
   email (\<lambda>s. s)
     \<lparr>to = ToString (js ''user@test.com''), headers = None, raw = Some (Stream (Inl ReadError))\<rparr>
     \<lparr>ACCESS_KEY = Some (js ''k''), CODE_TTL_SECONDS = None, DOMAINS = None,
      ANYMAIL_CODES = Map.empty\<rparr>
   = Inr []"
proof -
  let ?m = "\<lparr>to = ToString (js ''user@test.com''), headers = Some [js ''subject'' \<mapsto> js ''Code''],
      raw = Some (Stream (Inr (js ''Use 73920 to verify'')))\<rparr>"
  let ?n = "\<lparr>to = ToString (js ''user@test.com''), headers = None,
      raw = Some (Stream (Inl ReadError))\<rparr>"
  let ?e = "\<lparr>ACCESS_KEY = Some (js ''k''), CODE_TTL_SECONDS = Some (js ''120''), DOMAINS = None,
      ANYMAIL_CODES = Map.empty\<rparr>"
  let ?f = "\<lparr>ACCESS_KEY = Some (js ''k''), CODE_TTL_SECONDS = None, DOMAINS = None,
      ANYMAIL_CODES = Map.empty\<rparr>"
  have r: "getRecipients (\<lambda>s. s) ?m = [js ''user@test.com'']"
    by (simp add: getRecipients_def eval_defs)
  have c: "extractCode (scanned_text ?m) = Some (js ''73920'')"
    by (simp add: scanned_text_def message_subject_def message_text_def eval_defs)
  have t: "normalizeTtlSeconds (CODE_TTL_SECONDS ?e) = 120"
    by (simp add: ttl_eval)
  have k: "buildKey (js ''user@test.com'') = js ''code:user@test.com''"
    by (simp add: buildKey_def js_def)
  have n: "extractCode (scanned_text ?n) = None"
    by (simp add: scanned_text_def message_subject_def message_text_def eval_defs)
  have rne: "getRecipients (\<lambda>s. s) ?m \<noteq> []" using r by simp
  from email_writes_one_record_per_recipient [of "\<lambda>s. s" ?m ?e] rne c
  have "email (\<lambda>s. s) ?m ?e =
      Inr (map (\<lambda>recipient. \<lparr>key = buildKey recipient, val = js ''73920'',
                    expirationTtl = normalizeTtlSeconds (CODE_TTL_SECONDS ?e)\<rparr>)
               (getRecipients (\<lambda>s. s) ?m))"
    by blast
  then have 1: "email (\<lambda>s. s) ?m ?e =
      Inr [\<lparr>key = js ''code:user@test.com'', val = js ''73920'', expirationTtl = 120\<rparr>]"
    unfolding r t by (simp add: k)
  from email_writes_one_record_per_recipient [of "\<lambda>s. s" ?n ?f] n
  have 2: "email (\<lambda>s. s) ?n ?f = Inr []" by blast
  from 1 2 show ?thesis by blast
qed

lemma kv_put_all_snoc: "kv_put_all t (ws @ [w]) kv = kv_put t w (kv_put_all t ws kv)"
  by (simp add: kv_put_all_def)

lemma kv_put_all_lookup:
  assumes "w \<in> set ws"
    and "\<forall>w' \<in> set ws. key w' = key w \<longrightarrow> val w' = val w \<and> expirationTtl w' = expirationTtl w"
  shows "kv_put_all t ws kv (key w) = Some (val w, t + expirationTtl w)"
  using assms
proof (induction ws rule: rev_induct)
  case Nil
  then show ?case by simp
next
  case (snoc x xs)
  show ?case
  proof (cases "key x = key w")
    case True
    with snoc.prems(2) have "val x = val w" "expirationTtl x = expirationTtl w" by simp_all
    with True show ?thesis by (simp add: kv_put_all_snoc kv_put_def)
  next
    case False
    with snoc.prems(1) have "w \<in> set xs" by auto
    moreover from snoc.prems(2) have "\<forall>w' \<in> set xs. key w' = key w \<longrightarrow>
        val w' = val w \<and> expirationTtl w' = expirationTtl w" by simp
    ultimately have "kv_put_all t xs kv (key w) = Some (val w, t + expirationTtl w)"
      by (rule snoc.IH)
    with False show ?thesis by (simp add: kv_put_all_snoc kv_put_def)
  qed
qed

text \<open>
  Claim C2. Let the inbound handler request the writes \<open>ws\<close> for a message, one of them
  under \<open>buildKey address\<close>, and let them be applied to the store at the time \<open>t\<close>. Then
  an authorized GET request whose routing token URL-decodes to \<open>address\<close> is answered
  200 with the code of that write, as long as the record has not expired. Such an
  \<open>address\<close> is a normalised address: the handler stores under the addresses that
  \<open>extractEmailAddress\<close> returns, and the lookup applies \<open>extractEmailAddress\<close> and
  \<open>buildKey\<close> again, which leave such an address unchanged.
\<close>

theorem stored_code_is_returned_by_lookup:
  assumes "email U m e = Inr ws"
    and "w \<in> set ws" and "key w = buildKey address"
    and "request_method req = js ''GET''"
    and "truthy (ACCESS_KEY e) \<and> bearer_credential U req = ACCESS_KEY e"
    and "decodeURIComponent (routing_token req) = Inr address"
    and "now < t + expirationTtl w"
  shows "fetch U now req (e\<lparr>ANYMAIL_CODES := kv_put_all t ws (ANYMAIL_CODES e)\<rparr>)
           = Inr (json (CodePayload (val w)) 200) \<and>
         normalized_address address"
proof -
  let ?e' = "e\<lparr>ANYMAIL_CODES := kv_put_all t ws (ANYMAIL_CODES e)\<rparr>"
  from assms(1,2) obtain code where rs: "getRecipients U m \<noteq> []"
    and c: "extractCode (scanned_text m) = Some code"
    and ws: "ws = map (\<lambda>recipient. \<lparr>key = buildKey recipient, val = code,
                    expirationTtl = normalizeTtlSeconds (CODE_TTL_SECONDS e)\<rparr>)
               (getRecipients U m)"
    unfolding email_eq by (auto split: if_splits option.splits)
  from assms(2) ws obtain r where r: "r \<in> set (getRecipients U m)"
    and w: "w = \<lparr>key = buildKey r, val = code,
                    expirationTtl = normalizeTtlSeconds (CODE_TTL_SECONDS e)\<rparr>"
    by auto
  from w assms(3) have "r = address" by (simp add: buildKey_inject)
  with r have "address \<in> set (addresses U (to_entries (to m)))"
    by (simp add: getRecipients_eq set_first_occurrences)
  then have na: "normalized_address address" by (rule addresses_normalized)
  then have x: "extractEmailAddress U (Some address) = Some address" by (rule extract_normalized)
  from extracted_is_normalized [OF x] have ane: "address \<noteq> []" by simp
  have tne: "routing_token req \<noteq> []"
  proof
    assume "routing_token req = []"
    with assms(6) have "address = []" by simp
    with ane show False by contradiction
  qed
  from extractCode_length [OF c] have cne: "code \<noteq> []" by auto
  have same: "\<forall>w' \<in> set ws. key w' = key w \<longrightarrow>
      val w' = val w \<and> expirationTtl w' = expirationTtl w"
    unfolding ws w by auto
  from kv_put_all_lookup [OF assms(2) same]
  have "kv_put_all t ws (ANYMAIL_CODES e) (buildKey address)
      = Some (val w, t + expirationTtl w)"
    using assms(3) by simp
  with assms(7) have g: "kv_get now (ANYMAIL_CODES ?e') (buildKey address) = Some (val w)"
    by (simp add: kv_get_def)
  from assms(5) have a: "authorized U req ?e'" by (simp add: authorized_def)
  from w cne have vne: "val w \<noteq> []" by simp
  from fetch_GET [OF assms(4), of U now ?e'] a tne assms(6) x g vne
  have "fetch U now req ?e' = Inr (json (CodePayload (val w)) 200)" by simp
  with na show ?thesis by simp
qed

theorem stored_code_is_returned_by_lookup_witness:
  "fetch (\<lambda>s. s) 5
     \<lparr>request_method = js ''GET'', pathname = js ''/user%40test.com'',
      request_headers = [js ''authorization'' \<mapsto> js ''Bearer k'']\<rparr>
     (\<lparr>ACCESS_KEY = Some (js ''k''), CODE_TTL_SECONDS = Some (js ''120''), DOMAINS = None,
       ANYMAIL_CODES = Map.empty\<rparr>
      \<lparr>ANYMAIL_CODES := kv_put_all 0
         [\<lparr>key = js ''code:user@test.com'', val = js ''73920'', expirationTtl = 120\<rparr>]
         Map.empty\<rparr>)
   = Inr (json (CodePayload (js ''73920'')) 200)"
proof -
  let ?m = "\<lparr>to = ToString (js ''user@test.com''), headers = Some [js ''subject'' \<mapsto> js ''Code''],
      raw = Some (Stream (Inr (js ''Use 73920 to verify'')))\<rparr>"
  let ?e = "\<lparr>ACCESS_KEY = Some (js ''k''), CODE_TTL_SECONDS = Some (js ''120''), DOMAINS = None,
      ANYMAIL_CODES = Map.empty\<rparr>"
  let ?q = "\<lparr>request_method = js ''GET'', pathname = js ''/user%40test.com'',
      request_headers = [js ''authorization'' \<mapsto> js ''Bearer k'']\<rparr>"
  let ?w = "\<lparr>key = js ''code:user@test.com'', val = js ''73920'', expirationTtl = 120\<rparr>"
  have r: "getRecipients (\<lambda>s. s) ?m = [js ''user@test.com'']"
    by (simp add: getRecipients_def eval_defs)
  have c: "extractCode (scanned_text ?m) = Some (js ''73920'')"
    by (simp add: scanned_text_def message_subject_def message_text_def eval_defs)
  have t: "normalizeTtlSeconds (CODE_TTL_SECONDS ?e) = 120"
    by (simp add: ttl_eval)
  have k: "buildKey (js ''user@test.com'') = js ''code:user@test.com''"
    by (simp add: buildKey_def js_def)
  have em: "email (\<lambda>s. s) ?m ?e = Inr [?w]"
    unfolding email_eq r c t by (simp add: k)
  have mem: "?w \<in> set [?w]" by simp
  have key: "key ?w = buildKey (js ''user@test.com'')" by (simp add: k)
  have g: "request_method ?q = js ''GET''" by simp
  have a: "truthy (ACCESS_KEY ?e) \<and> bearer_credential (\<lambda>s. s) ?q = ACCESS_KEY ?e"
    by (simp add: auth_eval)
  have tok: "routing_token ?q = js ''user%40test.com''"
    by (simp add: routing_token_def js_def)
  have d: "decodeURIComponent (routing_token ?q) = Inr (js ''user@test.com'')"
    unfolding tok by (simp add: js_def hexval_def is_digit_def leading_ones_def)
  have u: "(5::int) < 0 + expirationTtl ?w" by simp
  from stored_code_is_returned_by_lookup [OF em mem key g a d u] show ?thesis by simp
qed

section \<open>The effective TTL\<close>

lemma digit_not_space: "is_digit c \<Longrightarrow> \<not> is_space c \<and> c \<noteq> 0x2B \<and> c \<noteq> 0x2D"
  by (auto simp: is_digit_def is_space_def)

lemma sign_not_space: "\<not> is_space 0x2B" "\<not> is_space 0x2D"
  by (simp_all add: is_space_def)

lemma dropWhile_head: "x = [] \<or> \<not> P (hd x) \<Longrightarrow> dropWhile P x = x"
  by (cases x) auto

lemma takeWhile_head: "x = [] \<or> \<not> P (hd x) \<Longrightarrow> takeWhile P x = []"
  by (cases x) auto

lemma dropWhile_all: "list_all P w \<Longrightarrow> x = [] \<or> \<not> P (hd x) \<Longrightarrow> dropWhile P (w @ x) = x"
  by (induction w) (simp_all add: dropWhile_head)

lemma takeWhile_all: "list_all P ds \<Longrightarrow> x = [] \<or> \<not> P (hd x) \<Longrightarrow> takeWhile P (ds @ x) = ds"
  by (induction ds) (simp_all add: takeWhile_head)

lemma digits_value_foldl_nonneg:
  "0 \<le> a \<Longrightarrow> 0 \<le> foldl (\<lambda>a d. 10 * a + int (d - 0x30)) a ds"
  by (induction ds arbitrary: a) simp_all

lemma digits_value_nonneg: "0 \<le> digits_value ds"
  unfolding digits_value_def by (rule digits_value_foldl_nonneg) simp

lemma round_to_double_nonneg:
  assumes "0 \<le> n" "round_to_double n = Some v"
  shows "0 \<le> v"
proof (cases "n \<le> 2 ^ 53")
  case True
  with assms show ?thesis by (simp add: round_to_double_def)
next
  case False
  define e where "e = bitlen n - 53"
  define q where "q = n div 2 ^ e"
  have q: "0 \<le> q" unfolding q_def using assms(1) by (simp add: pos_imp_zdiv_nonneg_iff)
  from False assms(2) have "v = q * 2 ^ e \<or> v = (q + 1) * 2 ^ e"
    unfolding round_to_double_def Let_def e_def [symmetric] q_def [symmetric]
    by (simp only: if_False split: if_splits) auto
  with q show ?thesis by auto
qed

lemma round_to_double_exact: "n \<le> 2 ^ 53 \<Longrightarrow> round_to_double n = Some n"
  by (simp add: round_to_double_def)

text \<open>What \<open>parseInt\<close> reads: white space, a sign, digits, and a rest it ignores.\<close>

lemma parseInt_after_space:
  assumes S: "dropWhile is_space string = sg @ ds @ rest" and sg: "is_sign sg"
    and Z: "takeWhile is_digit (ds @ rest) = ds"
    and nosign: "sg = [] \<longrightarrow> ds @ rest = [] \<or> (hd (ds @ rest) \<noteq> 0x2B \<and> hd (ds @ rest) \<noteq> 0x2D)"
  shows "parseInt string =
     (if ds = [] then NaN
      else case round_to_double (digits_value ds) of
             None \<Rightarrow> (if sg = [0x2D] then NegInfinity else PosInfinity)
           | Some v \<Rightarrow> Num (if sg = [0x2D] then - v else v))"
proof -
  from sg consider "sg = []" | "sg = [0x2B]" | "sg = [0x2D]" unfolding is_sign_def by blast
  then show ?thesis
  proof cases
    case 1
    with S have S': "dropWhile is_space string = ds @ rest" by simp
    from 1 nosign have n: "ds @ rest = [] \<or> (hd (ds @ rest) \<noteq> 0x2B \<and> hd (ds @ rest) \<noteq> 0x2D)"
      by simp
    have "(if ds @ rest \<noteq> [] \<and> (hd (ds @ rest) = 0x2B \<or> hd (ds @ rest) = 0x2D)
           then tl (ds @ rest) else ds @ rest) = ds @ rest"
      using n by auto
    moreover have "\<not> (ds @ rest \<noteq> [] \<and> hd (ds @ rest) = 0x2D)" using n by auto
    ultimately show ?thesis
      unfolding parseInt_def Let_def S' Z using 1
      by (simp only: Z if_False) (simp split: option.splits)
  next
    case 2
    with S have S': "dropWhile is_space string = 0x2B # ds @ rest" by simp
    show ?thesis
      unfolding parseInt_def Let_def S' using 2 Z by (simp split: option.splits)
  next
    case 3
    with S have S': "dropWhile is_space string = 0x2D # ds @ rest" by simp
    show ?thesis
      unfolding parseInt_def Let_def S' using 3 Z by (simp split: option.splits)
  qed
qed

lemma parseInt_parts:
  assumes w: "list_all is_space w" and sg: "is_sign sg" and ds: "list_all is_digit ds"
    and rest: "rest = [] \<or> \<not> is_digit (hd rest)"
    and start: "sg = [] \<and> ds = [] \<longrightarrow>
      rest = [] \<or> \<not> (is_space (hd rest) \<or> hd rest = 0x2B \<or> hd rest = 0x2D)"
  shows "parseInt (w @ sg @ ds @ rest) =
     (if ds = [] then NaN
      else case round_to_double (digits_value ds) of
             None \<Rightarrow> (if sg = [0x2D] then NegInfinity else PosInfinity)
           | Some v \<Rightarrow> Num (if sg = [0x2D] then - v else v))"
proof -
  let ?x = "sg @ ds @ rest"
  have hd_ds: "is_digit (hd (ds @ rest))" if "ds \<noteq> []"
    using that ds by (cases ds) simp_all
  have hx: "?x = [] \<or> \<not> is_space (hd ?x)"
  proof (cases "sg = []")
    case False
    with sg have "sg = [0x2B] \<or> sg = [0x2D]" by (simp add: is_sign_def)
    then show ?thesis using sign_not_space by auto
  next
    case True
    show ?thesis
    proof (cases "ds = []")
      case e: True
      with True start show ?thesis by auto
    next
      case False
      from hd_ds [OF this] True show ?thesis using digit_not_space by simp
    qed
  qed
  have S: "dropWhile is_space (w @ ?x) = ?x" using w hx by (rule dropWhile_all)
  have Z: "takeWhile is_digit (ds @ rest) = ds" using ds rest by (rule takeWhile_all)
  have nosign: "sg = [] \<longrightarrow> ds @ rest = [] \<or> (hd (ds @ rest) \<noteq> 0x2B \<and> hd (ds @ rest) \<noteq> 0x2D)"
  proof
    assume sg0: "sg = []"
    show "ds @ rest = [] \<or> (hd (ds @ rest) \<noteq> 0x2B \<and> hd (ds @ rest) \<noteq> 0x2D)"
    proof (cases "ds = []")
      case True
      with sg0 start show ?thesis by auto
    next
      case False
      from hd_ds [OF this] show ?thesis using digit_not_space by blast
    qed
  qed
  from parseInt_after_space [OF S sg Z nosign] show ?thesis .
qed

lemma bitlen_between: "2 ^ k \<le> n \<Longrightarrow> n < 2 ^ Suc k \<Longrightarrow> bitlen n = Suc k"
proof (induction k arbitrary: n)
  case 0
  then have "n = 1" by simp
  then show ?case by (simp add: bitlen.simps [of 1] bitlen.simps [of 0])
next
  case (Suc k)
  then have pos: "\<not> n \<le> 0" by (smt (verit) zero_less_power)
  from Suc.prems have "2 ^ k \<le> n div 2" "n div 2 < 2 ^ Suc k" by simp_all
  then have "bitlen (n div 2) = Suc k" by (rule Suc.IH)
  with pos show ?case by (subst bitlen.simps) simp
qed

lemma normalizeTtlSeconds_parts:
  assumes "list_all is_space w" "is_sign sg" "list_all is_digit ds"
    "rest = [] \<or> \<not> is_digit (hd rest)"
    "sg = [] \<and> ds = [] \<longrightarrow>
      rest = [] \<or> \<not> (is_space (hd rest) \<or> hd rest = 0x2B \<or> hd rest = 0x2D)"
  shows "ds \<noteq> [] \<and> sg \<noteq> [0x2D] \<and> 0 < digits_value ds \<and> digits_value ds \<le> 2 ^ 53 \<longrightarrow>
           normalizeTtlSeconds (Some (w @ sg @ ds @ rest)) = digits_value ds"
    and "ds = [] \<or> sg = [0x2D] \<or> digits_value ds = 0 \<longrightarrow>
           normalizeTtlSeconds (Some (w @ sg @ ds @ rest)) = DEFAULT_TTL_SECONDS"
proof -
  note p = parseInt_parts [OF assms]
  show "ds \<noteq> [] \<and> sg \<noteq> [0x2D] \<and> 0 < digits_value ds \<and> digits_value ds \<le> 2 ^ 53 \<longrightarrow>
           normalizeTtlSeconds (Some (w @ sg @ ds @ rest)) = digits_value ds"
  proof
    assume a: "ds \<noteq> [] \<and> sg \<noteq> [0x2D] \<and> 0 < digits_value ds \<and> digits_value ds \<le> 2 ^ 53"
    then have "round_to_double (digits_value ds) = Some (digits_value ds)"
      by (intro round_to_double_exact) simp
    with a p have "parseInt (w @ sg @ ds @ rest) = Num (digits_value ds)" by simp
    with a show "normalizeTtlSeconds (Some (w @ sg @ ds @ rest)) = digits_value ds"
      by (simp add: normalizeTtlSeconds_def)
  qed
  show "ds = [] \<or> sg = [0x2D] \<or> digits_value ds = 0 \<longrightarrow>
           normalizeTtlSeconds (Some (w @ sg @ ds @ rest)) = DEFAULT_TTL_SECONDS"
  proof
    assume a: "ds = [] \<or> sg = [0x2D] \<or> digits_value ds = 0"
    show "normalizeTtlSeconds (Some (w @ sg @ ds @ rest)) = DEFAULT_TTL_SECONDS"
    proof (cases "ds = []")
      case True
      with p show ?thesis by (simp add: normalizeTtlSeconds_def)
    next
      case ne: False
      show ?thesis
      proof (cases "round_to_double (digits_value ds)")
        case None
        with ne p show ?thesis by (simp add: normalizeTtlSeconds_def)
      next
        case (Some v)
        from round_to_double_nonneg [OF digits_value_nonneg Some] have v: "0 \<le> v" .
        show ?thesis
        proof (cases "sg = [0x2D]")
          case True
          with ne p Some v show ?thesis by (simp add: normalizeTtlSeconds_def)
        next
          case False
          with a ne have z: "digits_value ds = 0" by simp
          then have "round_to_double (digits_value ds) = Some 0"
            by (simp add: round_to_double_def)
          with Some have "v = 0" by simp
          with False ne p Some show ?thesis by (simp add: normalizeTtlSeconds_def)
        qed
      qed
    qed
  qed
qed

text \<open>
  Claim C5, amended. Without a configured value the TTL is the default, 600. For a string
  of decimal digits with a positive value up to \<open>2 ^ 53\<close> it is that value. In general
  \<^verbatim>\<open>parseInt\<close> reads a string as leading white space, a sign, a run of digits and a rest
  that it ignores: when the run is not empty, the sign is not a minus and the value of the
  run is positive and at most \<open>2 ^ 53\<close>, the TTL is the value of the run, whatever the
  rest is; when the run is empty, or the sign is a minus, or the value is zero, the TTL is
  the default.
\<close>

theorem normalizeTtlSeconds_leading_integer:
  "normalizeTtlSeconds None = DEFAULT_TTL_SECONDS \<and>
   DEFAULT_TTL_SECONDS = 600 \<and>
   (positive_integer_string s \<and> digits_value s \<le> 2 ^ 53 \<longrightarrow>
      normalizeTtlSeconds (Some s) = digits_value s) \<and>
   (list_all is_space w \<and> is_sign sg \<and> list_all is_digit ds \<and>
    (rest = [] \<or> \<not> is_digit (hd rest)) \<and>
    (sg = [] \<and> ds = [] \<longrightarrow>
       rest = [] \<or> \<not> (is_space (hd rest) \<or> hd rest = 0x2B \<or> hd rest = 0x2D)) \<longrightarrow>
      (ds \<noteq> [] \<and> sg \<noteq> [0x2D] \<and> 0 < digits_value ds \<and> digits_value ds \<le> 2 ^ 53 \<longrightarrow>
         normalizeTtlSeconds (Some (w @ sg @ ds @ rest)) = digits_value ds) \<and>
      (ds = [] \<or> sg = [0x2D] \<or> digits_value ds = 0 \<longrightarrow>
         normalizeTtlSeconds (Some (w @ sg @ ds @ rest)) = DEFAULT_TTL_SECONDS))"
proof (intro conjI impI)
  show "normalizeTtlSeconds None = DEFAULT_TTL_SECONDS"
    by (simp add: normalizeTtlSeconds_def parseInt_def)
  show "DEFAULT_TTL_SECONDS = 600" by (simp add: DEFAULT_TTL_SECONDS_def)
next
  assume a: "positive_integer_string s \<and> digits_value s \<le> 2 ^ 53"
  then have s: "s \<noteq> []" "list_all is_digit s" "0 < digits_value s"
    by (simp_all add: positive_integer_string_def)
  have "s \<noteq> [] \<and> ([] :: jsstring) \<noteq> [0x2D] \<and> 0 < digits_value s \<and> digits_value s \<le> 2 ^ 53 \<longrightarrow>
      normalizeTtlSeconds (Some ([] @ [] @ s @ [])) = digits_value s"
    by (rule normalizeTtlSeconds_parts(1)) (simp_all add: is_sign_def s)
  with a s show "normalizeTtlSeconds (Some s) = digits_value s" by simp
next
  assume h: "list_all is_space w \<and> is_sign sg \<and> list_all is_digit ds \<and>
    (rest = [] \<or> \<not> is_digit (hd rest)) \<and>
    (sg = [] \<and> ds = [] \<longrightarrow>
       rest = [] \<or> \<not> (is_space (hd rest) \<or> hd rest = 0x2B \<or> hd rest = 0x2D))"
  assume "ds \<noteq> [] \<and> sg \<noteq> [0x2D] \<and> 0 < digits_value ds \<and> digits_value ds \<le> 2 ^ 53"
  with normalizeTtlSeconds_parts(1) [of w sg ds rest] h
  show "normalizeTtlSeconds (Some (w @ sg @ ds @ rest)) = digits_value ds" by blast
next
  assume h: "list_all is_space w \<and> is_sign sg \<and> list_all is_digit ds \<and>
    (rest = [] \<or> \<not> is_digit (hd rest)) \<and>
    (sg = [] \<and> ds = [] \<longrightarrow>
       rest = [] \<or> \<not> (is_space (hd rest) \<or> hd rest = 0x2B \<or> hd rest = 0x2D))"
  assume "ds = [] \<or> sg = [0x2D] \<or> digits_value ds = 0"
  with normalizeTtlSeconds_parts(2) [of w sg ds rest] h
  show "normalizeTtlSeconds (Some (w @ sg @ ds @ rest)) = DEFAULT_TTL_SECONDS" by blast
qed

text \<open>
  Claim C5 as stated fails twice. The string \<^verbatim>\<open>12abc\<close> is not a representation of a
  positive integer, yet the TTL is 12 and not the default. The string
  \<^verbatim>\<open>9007199254740993\<close> is one, yet the TTL is 9007199254740992: the value does not fit
  a double.
\<close>

theorem normalizeTtlSeconds_lenient_counterexample:
  "\<not> positive_integer_string (js ''12abc'') \<and>
   normalizeTtlSeconds (Some (js ''12abc'')) = 12 \<and>
   DEFAULT_TTL_SECONDS = 600 \<and>
   positive_integer_string (js ''9007199254740993'') \<and>
   digits_value (js ''9007199254740993'') = 9007199254740993 \<and>
   normalizeTtlSeconds (Some (js ''9007199254740993'')) = 9007199254740992"
proof -
  have 1: "\<not> positive_integer_string (js ''12abc'')"
    by (simp add: positive_integer_string_def js_def is_digit_def)
  have 2: "normalizeTtlSeconds (Some (js ''12abc'')) = 12"
    by (simp add: ttl_eval)
  have 3: "DEFAULT_TTL_SECONDS = 600" by (simp add: DEFAULT_TTL_SECONDS_def)
  have v: "digits_value (js ''9007199254740993'') = 9007199254740993"
    by (simp add: digits_value_def js_def)
  have 4: "positive_integer_string (js ''9007199254740993'')"
    unfolding positive_integer_string_def v by (simp add: js_def is_digit_def)
  have b: "bitlen 9007199254740993 = 54"
    using bitlen_between [of 53 9007199254740993] by simp
  have r: "round_to_double 9007199254740993 = Some 9007199254740992"
    by (simp add: round_to_double_def b Let_def)
  have p: "parseInt (js ''9007199254740993'') = Num 9007199254740992"
  proof -
    have "parseInt ([] @ [] @ js ''9007199254740993'' @ []) =
        (if js ''9007199254740993'' = [] then NaN
         else case round_to_double (digits_value (js ''9007199254740993'')) of
             None \<Rightarrow> (if ([] :: jsstring) = [0x2D] then NegInfinity else PosInfinity)
           | Some v \<Rightarrow> Num (if ([] :: jsstring) = [0x2D] then - v else v))"
      by (rule parseInt_parts) (simp_all add: is_sign_def js_def is_digit_def)
    then show ?thesis unfolding v r by (simp add: js_def)
  qed
  have 5: "normalizeTtlSeconds (Some (js ''9007199254740993'')) = 9007199254740992"
    by (simp add: normalizeTtlSeconds_def p)
  from 1 2 3 4 v 5 show ?thesis by blast
qed

theorem normalizeTtlSeconds_leading_integer_witness:
  "normalizeTtlSeconds (Some (js ''120'')) = 120 \<and>
   normalizeTtlSeconds (Some (js '' +12abc'')) = 12 \<and>
   normalizeTtlSeconds (Some (js ''abc'')) = 600 \<and>
   normalizeTtlSeconds (Some (js ''-5'')) = 600 \<and>
   normalizeTtlSeconds (Some (js ''0'')) = 600"
proof -
  note T = normalizeTtlSeconds_leading_integer
  have d: "DEFAULT_TTL_SECONDS = 600" by (simp add: DEFAULT_TTL_SECONDS_def)
  have 1: "normalizeTtlSeconds (Some (js ''120'')) = 120"
  proof -
    have "positive_integer_string (js ''120'') \<and> digits_value (js ''120'') \<le> 2 ^ 53"
      by (simp add: positive_integer_string_def digits_value_def js_def is_digit_def)
    with T [of "js ''120''"] have "normalizeTtlSeconds (Some (js ''120'')) = digits_value (js ''120'')"
      by blast
    then show ?thesis by (simp add: digits_value_def js_def)
  qed
  have 2: "normalizeTtlSeconds (Some (js '' +12abc'')) = 12"
  proof -
    have h: "list_all is_space (js '' '') \<and> is_sign [0x2B] \<and> list_all is_digit (js ''12'') \<and>
        (js ''abc'' = [] \<or> \<not> is_digit (hd (js ''abc''))) \<and>
        (([0x2B] :: jsstring) = [] \<and> js ''12'' = [] \<longrightarrow>
           js ''abc'' = [] \<or> \<not> (is_space (hd (js ''abc'')) \<or> hd (js ''abc'') = 0x2B
             \<or> hd (js ''abc'') = 0x2D))"
      by (simp add: is_sign_def js_def is_digit_def is_space_def)
    have g: "js ''12'' \<noteq> [] \<and> ([0x2B] :: jsstring) \<noteq> [0x2D] \<and> 0 < digits_value (js ''12'')
        \<and> digits_value (js ''12'') \<le> 2 ^ 53"
      by (simp add: digits_value_def js_def)
    from T [of _ "js '' ''" "[0x2B]" "js ''12''" "js ''abc''"] h g
    have "normalizeTtlSeconds (Some (js '' '' @ [0x2B] @ js ''12'' @ js ''abc''))
        = digits_value (js ''12'')" by blast
    then show ?thesis by (simp add: digits_value_def js_def)
  qed
  have 3: "normalizeTtlSeconds (Some (js ''abc'')) = 600"
  proof -
    have h: "list_all is_space [] \<and> is_sign [] \<and> list_all is_digit [] \<and>
        (js ''abc'' = [] \<or> \<not> is_digit (hd (js ''abc''))) \<and>
        (([] :: jsstring) = [] \<and> ([] :: jsstring) = [] \<longrightarrow>
           js ''abc'' = [] \<or> \<not> (is_space (hd (js ''abc'')) \<or> hd (js ''abc'') = 0x2B
             \<or> hd (js ''abc'') = 0x2D))"
      by (simp add: is_sign_def js_def is_digit_def is_space_def)
    from T [of _ "[]" "[]" "[]" "js ''abc''"] h
    have "normalizeTtlSeconds (Some ([] @ [] @ [] @ js ''abc'')) = DEFAULT_TTL_SECONDS" by blast
    then show ?thesis by (simp add: d)
  qed
  have 4: "normalizeTtlSeconds (Some (js ''-5'')) = 600"
  proof -
    have h: "list_all is_space [] \<and> is_sign [0x2D] \<and> list_all is_digit (js ''5'') \<and>
        (([] :: jsstring) = [] \<or> \<not> is_digit (hd ([] :: jsstring))) \<and>
        (([0x2D] :: jsstring) = [] \<and> js ''5'' = [] \<longrightarrow>
           ([] :: jsstring) = [] \<or> \<not> (is_space (hd ([] :: jsstring)) \<or> hd ([] :: jsstring) = 0x2B
             \<or> hd ([] :: jsstring) = 0x2D))"
      by (simp add: is_sign_def js_def is_digit_def)
    from T [of _ "[]" "[0x2D]" "js ''5''" "[]"] h
    have "normalizeTtlSeconds (Some ([] @ [0x2D] @ js ''5'' @ [])) = DEFAULT_TTL_SECONDS" by blast
    then show ?thesis by (simp add: d js_def)
  qed
  have 5: "normalizeTtlSeconds (Some (js ''0'')) = 600"
  proof -
    have h: "list_all is_space [] \<and> is_sign [] \<and> list_all is_digit (js ''0'') \<and>
        (([] :: jsstring) = [] \<or> \<not> is_digit (hd ([] :: jsstring))) \<and>
        (([] :: jsstring) = [] \<and> js ''0'' = [] \<longrightarrow>
           ([] :: jsstring) = [] \<or> \<not> (is_space (hd ([] :: jsstring)) \<or> hd ([] :: jsstring) = 0x2B
             \<or> hd ([] :: jsstring) = 0x2D))"
      by (simp add: is_sign_def js_def is_digit_def)
    have z: "digits_value (js ''0'') = 0" by (simp add: digits_value_def js_def)
    from T [of _ "[]" "[]" "js ''0''" "[]"] h z
    have "normalizeTtlSeconds (Some ([] @ [] @ js ''0'' @ [])) = DEFAULT_TTL_SECONDS" by blast
    then show ?thesis by (simp add: d)
  qed
  from 1 2 3 4 5 show ?thesis by blast
qed

section \<open>Reading the body of a message\<close>

text \<open>
  Claim C9. For every inbound message, \<^verbatim>\<open>readRawText\<close> returns the text read from the
  body stream; when the message has no stream, or when reading fails, it returns the empty
  string. It always returns a string: no failure reaches the caller.
\<close>

theorem readRawText_absorbs_failures:
  "(\<exists>text. readRawText m = Inr text) \<and>
   readRawText m =
     (case raw m of
        None \<Rightarrow> Inr []
      | Some (Stream (Inr text)) \<Rightarrow> Inr text
      | Some (Stream (Inl err)) \<Rightarrow> Inr [])"
  by (simp add: readRawText_def try_catch_def Response_text_def
      split: option.splits stream.splits sum.splits)

end
